theory Spec2Isabelle
  imports Main
begin

section \<open>Secret Santa: data model\<close>

text \<open>
  The program works on Python dicts and lists of names.  A dict is modelled by the list
  of its items in insertion order (Python dicts iterate in insertion order, and
  \<^verbatim>\<open>random.choice\<close> indexes into the key list); the keys of a dict are
  pairwise different, which is the property \<open>distinct (map fst d)\<close> of the item list.
  A participant's partner is \<^verbatim>\<open>None\<close> or a name, so the values of the
  \<^verbatim>\<open>participants\<close> dict are \<open>name option\<close>, and the test
  \<^verbatim>\<open>n != participants[name]\<close> is \<open>Some n \<noteq> partner\<close>.
\<close>

type_synonym name = string
type_synonym participants = "(name \<times> name option) list"
type_synonym assignment = "(name \<times> name) list"

text \<open>
  The exceptions the subscripts and list operations of the source can raise;
  \<^verbatim>\<open>TypeError\<close> stands for an operation on an object of the wrong kind.
\<close>

datatype py_error = KeyError | ValueError | IndexError | TypeError

text \<open>\<^verbatim>\<open>d[k]\<close>: the value stored under \<open>k\<close>, or \<^verbatim>\<open>KeyError\<close>.\<close>

fun dict_get :: "('k \<times> 'v) list \<Rightarrow> 'k \<Rightarrow> py_error + 'v" where
  "dict_get [] k = Inl KeyError"
| "dict_get ((k', v) # d) k = (if k' = k then Inr v else dict_get d k)"

text \<open>
  \<^verbatim>\<open>d[k] = v\<close>: an existing key keeps its place and gets the new value, a new key
  is appended.
\<close>

fun dict_set :: "'k \<Rightarrow> 'v \<Rightarrow> ('k \<times> 'v) list \<Rightarrow> ('k \<times> 'v) list" where
  "dict_set k v [] = [(k, v)]"
| "dict_set k v ((k', v') # d) =
     (if k' = k then (k, v) # d else (k', v') # dict_set k v d)"

definition dict_keys :: "('k \<times> 'v) list \<Rightarrow> 'k list" where
  "dict_keys d = map fst d"

definition dict_values :: "('k \<times> 'v) list \<Rightarrow> 'v list" where
  "dict_values d = map snd d"

text \<open>
  \<^verbatim>\<open>xs.remove(x)\<close> deletes the first occurrence of \<open>x\<close> and raises
  \<^verbatim>\<open>ValueError\<close> when there is none.
\<close>

definition list_remove :: "'a \<Rightarrow> 'a list \<Rightarrow> py_error + 'a list" where
  "list_remove x xs = (if x \<in> set xs then Inr (remove1 x xs) else Inl ValueError)"

text \<open>
  \<^verbatim>\<open>random.choice(xs)\<close> returns \<open>xs[i]\<close> for a random index \<open>i\<close> below the
  length and raises \<^verbatim>\<open>IndexError\<close> on an empty list.  The random source is a
  sequence of natural numbers \<open>rnd 0, rnd 1, \<dots>\<close>; a draw \<open>r\<close> selects the index
  \<open>r mod length xs\<close>, so every draw is a legal choice and every element can be chosen.
\<close>

definition choice :: "nat \<Rightarrow> 'a list \<Rightarrow> py_error + 'a" where
  "choice r xs = (if xs = [] then Inl IndexError else Inr (xs ! (r mod length xs)))"

section \<open>The feasibility checker\<close>

text \<open>
  \<^verbatim>\<open>
  def is_assignment_possible(participants):
      for santa in participants:
          possible_recipients = [name for name in participants
                                 if name != santa and name != participants[santa]]
          if not possible_recipients:
              return False
      return True
  \<close>
  The loop over the keys is the recursion of \<open>feasible_from\<close> over the key list.
\<close>

fun feasible_from :: "participants \<Rightarrow> name list \<Rightarrow> py_error + bool" where
  "feasible_from participants [] = Inr True"
| "feasible_from participants (santa # rest) =
     (case dict_get participants santa of
        Inl e \<Rightarrow> Inl e
      | Inr partner \<Rightarrow>
          let possible_recipients =
                [name \<leftarrow> dict_keys participants. name \<noteq> santa \<and> Some name \<noteq> partner]
          in if possible_recipients = [] then Inr False
             else feasible_from participants rest)"

definition is_assignment_possible :: "participants \<Rightarrow> py_error + bool" where
  "is_assignment_possible participants = feasible_from participants (dict_keys participants)"

section \<open>The assignment engine\<close>

text \<open>
  \<^verbatim>\<open>
  all_names = list(participants.keys())
  valid_assignments = {name: [n for n in all_names
                              if n != name and n != participants[name]]
                       for name in all_names}
  \<close>
  The dict comprehension inserts one entry per name of \<open>all_names\<close>, in order.
\<close>

fun build_valid_assignments ::
  "participants \<Rightarrow> name list \<Rightarrow> name list \<Rightarrow> py_error + (name \<times> name list) list" where
  "build_valid_assignments participants all_names [] = Inr []"
| "build_valid_assignments participants all_names (name # rest) =
     (case dict_get participants name of
        Inl e \<Rightarrow> Inl e
      | Inr partner \<Rightarrow>
          (case build_valid_assignments participants all_names rest of
             Inl e \<Rightarrow> Inl e
           | Inr d \<Rightarrow> Inr ((name, [n \<leftarrow> all_names. n \<noteq> name \<and> Some n \<noteq> partner]) # d)))"

text \<open>The three local variables the loop mutates.\<close>

record state =
  all_names :: "name list"
  assignments :: assignment
  valid_assignments :: "(name \<times> name list) list"

text \<open>
  One iteration of the \<^verbatim>\<open>while\<close> loop, with the two draws it may consume:
  \<^verbatim>\<open>
  santa = random.choice(all_names)
  possible_recipients = valid_assignments[santa]
  possible_recipients = [recipient for recipient in possible_recipients
                         if recipient not in assignments.values()]
  if not possible_recipients:
      return None
  giftee = random.choice(possible_recipients)
  assignments[santa] = giftee
  all_names.remove(santa)
  for name in valid_assignments:
      if giftee in valid_assignments[name]:
          valid_assignments[name].remove(giftee)
  \<close>
  The result \<open>Inr None\<close> is the early \<^verbatim>\<open>return None\<close>; \<open>Inr (Some st)\<close> is the
  state at the end of the loop body.
\<close>

definition remove_giftee :: "name \<Rightarrow> (name \<times> name list) list \<Rightarrow> (name \<times> name list) list" where
  "remove_giftee giftee valid =
     map (\<lambda>(name, recipients).
            (name, if giftee \<in> set recipients then remove1 giftee recipients else recipients))
         valid"

definition step :: "nat \<Rightarrow> nat \<Rightarrow> state \<Rightarrow> py_error + state option" where
  "step r1 r2 st =
     (case choice r1 (all_names st) of
        Inl e \<Rightarrow> Inl e
      | Inr santa \<Rightarrow>
          (case dict_get (valid_assignments st) santa of
             Inl e \<Rightarrow> Inl e
           | Inr candidates \<Rightarrow>
               let possible_recipients =
                     [recipient \<leftarrow> candidates. recipient \<notin> set (dict_values (assignments st))]
               in if possible_recipients = [] then Inr None
                  else
                    (case choice r2 possible_recipients of
                       Inl e \<Rightarrow> Inl e
                     | Inr giftee \<Rightarrow>
                         (case list_remove santa (all_names st) of
                            Inl e \<Rightarrow> Inl e
                          | Inr names' \<Rightarrow>
                              Inr (Some \<lparr> all_names = names',
                                          assignments = dict_set santa giftee (assignments st),
                                          valid_assignments =
                                            remove_giftee giftee (valid_assignments st) \<rparr>)))))"

text \<open>
  \<^verbatim>\<open>while all_names: ...\<close> followed by \<^verbatim>\<open>return assignments\<close>.  Each iteration
  uses the draws \<open>rnd 0\<close> and \<open>rnd 1\<close> and leaves the rest of the sequence to the next
  one.  The loop terminates because every completed iteration shortens \<open>all_names\<close>.
\<close>

function while_loop :: "(nat \<Rightarrow> nat) \<Rightarrow> state \<Rightarrow> py_error + assignment option" where
  "while_loop rnd st =
     (if all_names st = [] then Inr (Some (assignments st))
      else
        (case step (rnd 0) (rnd 1) st of
           Inl e \<Rightarrow> Inl e
         | Inr None \<Rightarrow> Inr None
         | Inr (Some st') \<Rightarrow> while_loop (\<lambda>i. rnd (i + 2)) st'))"
  by pat_completeness auto
termination
  by (relation "measure (\<lambda>(rnd, st). length (all_names st))")
     (auto simp: step_def choice_def list_remove_def Let_def length_remove1
           split: sum.splits if_splits)

declare while_loop.simps [simp del]

text \<open>
  The state the loop starts in:
  \<^verbatim>\<open>
  all_names = list(participants.keys())
  valid_assignments = {...}
  assignments = pre_assigned.copy()
  all_names = [name for name in all_names if name not in pre_assigned]
  \<close>
\<close>

definition initial_state :: "participants \<Rightarrow> assignment \<Rightarrow> py_error + state" where
  "initial_state participants pre_assigned =
     (let names = dict_keys participants in
      case build_valid_assignments participants names names of
        Inl e \<Rightarrow> Inl e
      | Inr valid \<Rightarrow>
          Inr \<lparr> all_names = [name \<leftarrow> names. name \<notin> set (dict_keys pre_assigned)],
                assignments = pre_assigned,
                valid_assignments = valid \<rparr>)"

text \<open>
  The whole function: \<open>Inr None\<close> is the \<^verbatim>\<open>None\<close> it returns when stuck,
  \<open>Inr (Some m)\<close> the dict it returns, \<open>Inl e\<close> an exception leaving it.
\<close>

definition assign_secret_santa ::
  "participants \<Rightarrow> assignment \<Rightarrow> (nat \<Rightarrow> nat) \<Rightarrow> py_error + assignment option" where
  "assign_secret_santa participants pre_assigned rnd =
     (case initial_state participants pre_assigned of
        Inl e \<Rightarrow> Inl e
      | Inr st \<Rightarrow> while_loop rnd st)"

text \<open>
  The state at the head of the loop after \<open>n\<close> completed iterations, when the loop gets
  that far (it has neither left through its condition nor returned nor raised before).
  Iteration \<open>i\<close> of a run on \<open>rnd\<close> uses the draws \<open>rnd (2 * i)\<close> and
  \<open>rnd (2 * i + 1)\<close>.
\<close>

fun state_after :: "nat \<Rightarrow> (nat \<Rightarrow> nat) \<Rightarrow> state \<Rightarrow> state option" where
  "state_after 0 rnd st = Some st"
| "state_after (Suc n) rnd st =
     (if all_names st = [] then None
      else
        (case step (rnd 0) (rnd 1) st of
           Inr (Some st') \<Rightarrow> state_after n (\<lambda>i. rnd (i + 2)) st'
         | _ \<Rightarrow> None))"

text \<open>
  Python's truth value of what \<^verbatim>\<open>assign_secret_santa\<close> returns, as the driving loop
  \<^verbatim>\<open>while not assignment\<close> tests it: \<^verbatim>\<open>None\<close> and the empty dict are false.
\<close>

fun truthy :: "assignment option \<Rightarrow> bool" where
  "truthy None = False"
| "truthy (Some d) = (d \<noteq> [])"

text \<open>
  The driving loop of the main program,
  \<^verbatim>\<open>
  assignment = None
  while not assignment:
      assignment = assign_secret_santa(participants, pre_assigned)
  \<close>
  where attempt \<open>k\<close> draws from the sequence \<open>rnds k\<close>.  The loop has no bound, so it
  is a partial function: \<open>None\<close> says that it never ends, \<open>Some r\<close> that it ends with the
  value \<open>r\<close> of \<^verbatim>\<open>assignment\<close> (or with an exception).
\<close>

partial_function (option) retry_until_truthy ::
  "participants \<Rightarrow> assignment \<Rightarrow> (nat \<Rightarrow> nat \<Rightarrow> nat) \<Rightarrow> nat \<Rightarrow> (py_error + assignment option) option" where
  "retry_until_truthy participants pre_assigned rnds k =
     (case assign_secret_santa participants pre_assigned (rnds k) of
        Inl e \<Rightarrow> Some (Inl e)
      | Inr assignment \<Rightarrow>
          if \<not> truthy assignment
          then retry_until_truthy participants pre_assigned rnds (Suc k)
          else Some (Inr assignment))"

section \<open>The assignment engine on an explicit store\<close>

text \<open>
  Dicts and lists are mutable Python objects, and a variable holds a reference to one.
  To state what a call does to the objects of its caller, the engine is modelled a
  second time on a store: a list of objects, where the reference of an object is its
  position and a new object is appended.  Names are strings, which are immutable, so they
  are kept as values.  The list comprehension of line 126 builds a list that is only read
  and dropped again; it is kept as a value as well.
\<close>

type_synonym ref = nat

datatype obj =
    Participants participants
  | Assignment assignment
  | Names "name list"
  | Index "(name \<times> ref) list"

type_synonym heap = "obj list"

text \<open>Creating an object: it gets the next free reference.\<close>

definition alloc :: "heap \<Rightarrow> obj \<Rightarrow> heap \<times> ref" where
  "alloc h ob = (h @ [ob], length h)"

text \<open>The object behind a reference; \<open>None\<close> for a reference that no object has.\<close>

definition load :: "heap \<Rightarrow> ref \<Rightarrow> obj option" where
  "load h a = (if a < length h then Some (h ! a) else None)"

text \<open>
  Changing an object in place.  The engine only writes through references it has just
  read an object from, so the reference is always one of the store.
\<close>

definition store :: "heap \<Rightarrow> ref \<Rightarrow> obj \<Rightarrow> heap" where
  "store h a ob = h[a := ob]"

text \<open>
  The references held by the local variables \<^verbatim>\<open>all_names\<close>, \<^verbatim>\<open>assignments\<close>
  and \<^verbatim>\<open>valid_assignments\<close> while the loop runs.
\<close>

record frame =
  names_ref :: ref
  result_ref :: ref
  index_ref :: ref

text \<open>
  The dict comprehension of line 116 creates one new list object for every name and
  returns the entries of the new dict, each a name with the reference of its list.
\<close>

fun alloc_index ::
  "participants \<Rightarrow> name list \<Rightarrow> name list \<Rightarrow> heap \<Rightarrow> heap \<times> (py_error + (name \<times> ref) list)" where
  "alloc_index participants names [] h = (h, Inr [])"
| "alloc_index participants names (name # rest) h =
     (case dict_get participants name of
        Inl e \<Rightarrow> (h, Inl e)
      | Inr partner \<Rightarrow>
          (case alloc h (Names [n \<leftarrow> names. n \<noteq> name \<and> Some n \<noteq> partner]) of
             (h1, r) \<Rightarrow>
               (case alloc_index participants names rest h1 of
                  (h2, Inl e) \<Rightarrow> (h2, Inl e)
                | (h2, Inr idx) \<Rightarrow> (h2, Inr ((name, r) # idx)))))"

text \<open>
  Lines 136 to 138: every list of \<^verbatim>\<open>valid_assignments\<close> that contains the giftee is
  changed in place.
\<close>

fun remove_from_lists :: "name \<Rightarrow> ref list \<Rightarrow> heap \<Rightarrow> heap \<times> (py_error + unit)" where
  "remove_from_lists giftee [] h = (h, Inr ())"
| "remove_from_lists giftee (r # rs) h =
     (case load h r of
        Some (Names recipients) \<Rightarrow>
          remove_from_lists giftee rs
            (if giftee \<in> set recipients then store h r (Names (remove1 giftee recipients))
             else h)
      | _ \<Rightarrow> (h, Inl TypeError))"

text \<open>
  One iteration of the loop on the store.  The store that is returned is the one at the
  moment the iteration ends, returns or raises; \<open>Inr True\<close> says that the loop goes on,
  \<open>Inr False\<close> that the function returns \<^verbatim>\<open>None\<close>.
\<close>

definition heap_step :: "nat \<Rightarrow> nat \<Rightarrow> frame \<Rightarrow> heap \<Rightarrow> heap \<times> (py_error + bool)" where
  "heap_step r1 r2 fr h =
     (case (load h (names_ref fr), load h (result_ref fr), load h (index_ref fr)) of
        (Some (Names names), Some (Assignment result), Some (Index idx)) \<Rightarrow>
          (case choice r1 names of
             Inl e \<Rightarrow> (h, Inl e)
           | Inr santa \<Rightarrow>
               (case dict_get idx santa of
                  Inl e \<Rightarrow> (h, Inl e)
                | Inr list_ref \<Rightarrow>
                    (case load h list_ref of
                       Some (Names candidates) \<Rightarrow>
                         let possible_recipients =
                               [recipient \<leftarrow> candidates. recipient \<notin> set (dict_values result)]
                         in if possible_recipients = [] then (h, Inr False)
                            else
                              (case choice r2 possible_recipients of
                                 Inl e \<Rightarrow> (h, Inl e)
                               | Inr giftee \<Rightarrow>
                                   let h1 = store h (result_ref fr)
                                              (Assignment (dict_set santa giftee result))
                                   in (case list_remove santa names of
                                         Inl e \<Rightarrow> (h1, Inl e)
                                       | Inr names' \<Rightarrow>
                                           (case remove_from_lists giftee (dict_values idx)
                                                   (store h1 (names_ref fr) (Names names')) of
                                              (h3, Inl e) \<Rightarrow> (h3, Inl e)
                                            | (h3, Inr _) \<Rightarrow> (h3, Inr True))))
                     | _ \<Rightarrow> (h, Inl TypeError))))
      | _ \<Rightarrow> (h, Inl TypeError))"

text \<open>The length of the list that \<^verbatim>\<open>while all_names\<close> tests.\<close>

definition unresolved :: "frame \<Rightarrow> heap \<Rightarrow> nat" where
  "unresolved fr h = (case load h (names_ref fr) of Some (Names names) \<Rightarrow> length names | _ \<Rightarrow> 0)"

text \<open>
  The loop; it returns the reference of the \<^verbatim>\<open>assignments\<close> dict.  It terminates
  because an iteration that goes on leaves a shorter list at \<open>names_ref\<close>, whatever the
  references of the frame are.
\<close>

function heap_loop :: "(nat \<Rightarrow> nat) \<Rightarrow> frame \<Rightarrow> heap \<Rightarrow> heap \<times> (py_error + ref option)" where
  "heap_loop rnd fr h =
     (if unresolved fr h = 0 then
        (case load h (names_ref fr) of
           Some (Names names) \<Rightarrow> (h, Inr (Some (result_ref fr)))
         | _ \<Rightarrow> (h, Inl TypeError))
      else
        (case heap_step (rnd 0) (rnd 1) fr h of
           (h', Inl e) \<Rightarrow> (h', Inl e)
         | (h', Inr False) \<Rightarrow> (h', Inr None)
         | (h', Inr True) \<Rightarrow> heap_loop (\<lambda>i. rnd (i + 2)) fr h'))"
  by pat_completeness auto
termination
proof (relation "measure (\<lambda>(rnd, fr, h). unresolved fr h)")
  show "wf (measure (\<lambda>(rnd, fr, h). unresolved fr h))" by simp
next
  fix rnd :: "nat \<Rightarrow> nat" and fr :: frame and h h' :: heap
    and y :: "py_error + bool" and b :: bool
  assume ne: "unresolved fr h \<noteq> 0" and xy: "(h', y) = heap_step (rnd 0) (rnd 1) fr h"
    and y: "y = Inr b" and b: "b = True"
  have shrink: "unresolved fr (snd_heap) \<le> unresolved fr h0"
    if "remove_from_lists g rs h0 = (snd_heap, out)" for g rs h0 snd_heap out
    using that
  proof (induction g rs h0 rule: remove_from_lists.induct)
    case (1 giftee h)
    then show ?case by simp
  next
    case (2 giftee r rs h)
    show ?case
    proof (cases "\<exists>recipients. load h r = Some (Names recipients)")
      case True
      then obtain recipients where l: "load h r = Some (Names recipients)" ..
      let ?h = "if giftee \<in> set recipients
                then store h r (Names (remove1 giftee recipients)) else h"
      from "2.prems" l have "remove_from_lists giftee rs ?h = (snd_heap, out)" by simp
      from "2.IH"[OF l refl this] have "unresolved fr snd_heap \<le> unresolved fr ?h" .
      moreover have "unresolved fr ?h \<le> unresolved fr h"
        using l by (auto simp: unresolved_def load_def store_def nth_list_update length_remove1
            split: option.splits obj.splits if_splits)
      ultimately show ?thesis by simp
    next
      case False
      with "2.prems" have "snd_heap = h"
        by (auto split: option.splits obj.splits)
      then show ?thesis by simp
    qed
  qed
  from ne obtain names where n: "load h (names_ref fr) = Some (Names names)" "names \<noteq> []"
    by (auto simp: unresolved_def split: option.splits obj.splits)
  from xy y b have s: "heap_step (rnd 0) (rnd 1) fr h = (h', Inr True)" by simp
  from s n obtain result and idx :: "(name \<times> ref) list" and santa giftee where
    r: "remove_from_lists giftee (dict_values idx)
          (store (store h (result_ref fr) (Assignment (dict_set santa giftee result)))
             (names_ref fr) (Names (remove1 santa names))) = (h', Inr ())"
    and sa: "santa \<in> set names"
    by (auto simp: heap_step_def Let_def list_remove_def
        split: option.splits obj.splits sum.splits if_splits prod.splits)
  from n have "names_ref fr < length h" by (auto simp: load_def split: if_splits)
  then have "unresolved fr (store (store h (result_ref fr)
             (Assignment (dict_set santa giftee result)))
             (names_ref fr) (Names (remove1 santa names))) = length (remove1 santa names)"
    by (simp add: unresolved_def load_def store_def)
  with shrink[OF r] have "unresolved fr h' \<le> length (remove1 santa names)" by simp
  moreover from sa have "length (remove1 santa names) < length names"
    using length_pos_if_in_set[OF sa] by (simp add: length_remove1)
  moreover from n have "unresolved fr h = length names" by (simp add: unresolved_def)
  ultimately have "unresolved fr h' < unresolved fr h" by simp
  then show "((\<lambda>i. rnd (i + 2), fr, h'), rnd, fr, h) \<in> measure (\<lambda>(rnd, fr, h). unresolved fr h)"
    by simp
qed

declare heap_loop.simps [simp del]

text \<open>
  The call, given the references of its two arguments: \<^verbatim>\<open>list(participants.keys())\<close>,
  the dict comprehension, \<^verbatim>\<open>pre_assigned.copy()\<close> and the second list comprehension
  each create a new object.
\<close>

definition assign_secret_santa_heap ::
  "heap \<Rightarrow> ref \<Rightarrow> ref \<Rightarrow> (nat \<Rightarrow> nat) \<Rightarrow> heap \<times> (py_error + ref option)" where
  "assign_secret_santa_heap h participants_ref pre_assigned_ref rnd =
     (case (load h participants_ref, load h pre_assigned_ref) of
        (Some (Participants participants), Some (Assignment pre_assigned)) \<Rightarrow>
          (case alloc h (Names (dict_keys participants)) of
             (h1, first_names_ref) \<Rightarrow>
               (case alloc_index participants (dict_keys participants)
                       (dict_keys participants) h1 of
                  (h2, Inl e) \<Rightarrow> (h2, Inl e)
                | (h2, Inr idx) \<Rightarrow>
                    (case alloc h2 (Index idx) of
                       (h3, iref) \<Rightarrow>
                         (case alloc h3 (Assignment pre_assigned) of
                            (h4, rref) \<Rightarrow>
                              (case alloc h4
                                      (Names [name \<leftarrow> dict_keys participants.
                                                name \<notin> set (dict_keys pre_assigned)]) of
                                 (h5, nref) \<Rightarrow>
                                   heap_loop rnd
                                     \<lparr> names_ref = nref, result_ref = rref,
                                       index_ref = iref \<rparr> h5)))))
      | _ \<Rightarrow> (h, Inl TypeError))"

text \<open>What the caller reads from the outcome of a call on the store.\<close>

definition heap_result :: "heap \<times> (py_error + ref option) \<Rightarrow> py_error + assignment option" where
  "heap_result hr =
     (case hr of
        (h, Inl e) \<Rightarrow> Inl e
      | (h, Inr None) \<Rightarrow> Inr None
      | (h, Inr (Some a)) \<Rightarrow>
          (case load h a of Some (Assignment m) \<Rightarrow> Inr (Some m) | _ \<Rightarrow> Inl TypeError))"

section \<open>The notions of the specification\<close>

text \<open>
  The candidate set of a participant \<open>P\<close>: all participants except \<open>P\<close> itself and
  except \<open>P\<close>'s declared partner.
\<close>

definition candidate_set :: "participants \<Rightarrow> name \<Rightarrow> name set" where
  "candidate_set participants P =
     {n \<in> set (dict_keys participants). n \<noteq> P \<and> dict_get participants P \<noteq> Inr (Some n)}"

text \<open>
  The available candidates of a giver: its candidate set minus every receiver already
  used in the result mapping.
\<close>

definition available :: "participants \<Rightarrow> assignment \<Rightarrow> name \<Rightarrow> name set" where
  "available participants result g = candidate_set participants g - set (dict_values result)"

text \<open>
  A complete valid assignment for a participants mapping, as the data model of the
  specification describes the result: a total mapping on the participants that sends no
  participant to itself or to its declared partner (every receiver is in the giver's
  candidate set) and has every participant as a receiver exactly once.
\<close>

definition valid_assignment :: "participants \<Rightarrow> assignment \<Rightarrow> bool" where
  "valid_assignment participants m \<longleftrightarrow>
     distinct (dict_keys m) \<and> set (dict_keys m) = set (dict_keys participants) \<and>
     (\<forall>(g, r) \<in> set m. r \<in> candidate_set participants g) \<and>
     distinct (dict_values m) \<and> set (dict_values m) = set (dict_keys participants)"


section \<open>Loop invariants\<close>

text \<open>
  The unresolved givers are participants, the candidate index has one entry per
  participant, and every entry holds only candidates of its participant.
\<close>

definition well_formed :: "participants \<Rightarrow> state \<Rightarrow> bool" where
  "well_formed ps st \<longleftrightarrow>
     set (all_names st) \<subseteq> set (dict_keys ps) \<and>
     dict_keys (valid_assignments st) = dict_keys ps \<and>
     (\<forall>g c. (g, c) \<in> set (valid_assignments st) \<longrightarrow> set c \<subseteq> candidate_set ps g)"

text \<open>
  What the loop keeps true of the pre-assignment: no unresolved giver is a pre-assigned
  key, the pre-assigned entries are still in the result mapping, every other entry maps
  a giver to one of its candidates, and every participant is pre-assigned, unresolved or
  already a key of the result mapping.
\<close>

definition search_inv :: "participants \<Rightarrow> assignment \<Rightarrow> state \<Rightarrow> bool" where
  "search_inv ps pre st \<longleftrightarrow>
     set (all_names st) \<inter> set (dict_keys pre) = {} \<and>
     (\<forall>g. g \<in> set (dict_keys pre) \<longrightarrow> dict_get (assignments st) g = dict_get pre g) \<and>
     (\<forall>g r. dict_get (assignments st) g = Inr r \<longrightarrow>
            g \<in> set (dict_keys pre) \<or> r \<in> candidate_set ps g) \<and>
     set (dict_keys ps) \<subseteq>
       set (dict_keys pre) \<union> set (all_names st) \<union> set (dict_keys (assignments st))"

text \<open>The unresolved givers are pairwise different and not yet keys of the result mapping.\<close>

definition fresh :: "state \<Rightarrow> bool" where
  "fresh st \<longleftrightarrow>
     distinct (all_names st) \<and> set (all_names st) \<inter> set (dict_keys (assignments st)) = {}"

text \<open>
  The result mapping has pairwise different keys and pairwise different receivers, all
  of them participants.
\<close>

definition vals_inv :: "participants \<Rightarrow> state \<Rightarrow> bool" where
  "vals_inv ps st \<longleftrightarrow>
     distinct (dict_keys (assignments st)) \<and> distinct (dict_values (assignments st)) \<and>
     set (dict_values (assignments st)) \<subseteq> set (dict_keys ps) \<and>
     set (dict_keys (assignments st)) \<subseteq> set (dict_keys ps)"

text \<open>
  What is left of an entry of the candidate index after the used receivers are taken
  away is what is left of the participant's full candidate set.
\<close>

definition avail_inv :: "participants \<Rightarrow> state \<Rightarrow> bool" where
  "avail_inv ps st \<longleftrightarrow>
     (\<forall>g c. (g, c) \<in> set (valid_assignments st) \<longrightarrow>
        set c - set (dict_values (assignments st)) = available ps (assignments st) g)"

text \<open>Every list reference in the candidate index was created during the call.\<close>

definition index_refs_fresh :: "nat \<Rightarrow> frame \<Rightarrow> heap \<Rightarrow> bool" where
  "index_refs_fresh n0 fr h \<longleftrightarrow>
     (\<forall>idx r. load h (index_ref fr) = Some (Index idx) \<longrightarrow> r \<in> set (dict_values idx) \<longrightarrow> n0 \<le> r)"

text \<open>
  The second store has the objects of the first at every reference below \<open>n0\<close>, and
  no new index object.
\<close>

definition same_below :: "nat \<Rightarrow> heap \<Rightarrow> heap \<Rightarrow> bool" where
  "same_below n0 h h' \<longleftrightarrow> length h' = length h \<and> (\<forall>a < n0. h' ! a = h ! a) \<and>
     (\<forall>a idx. load h' a = Some (Index idx) \<longrightarrow> load h a = Some (Index idx))"

text \<open>
  The store holds the state of the engine: the frame refers to objects with the contents
  of the three local variables, at pairwise different references.
\<close>

definition index_rel :: "heap \<Rightarrow> (name \<times> ref) list \<Rightarrow> (name \<times> name list) list \<Rightarrow> bool" where
  "index_rel h idx valid \<longleftrightarrow>
     list_all2 (\<lambda>nr nc. fst nr = fst nc \<and> load h (snd nr) = Some (Names (snd nc))) idx valid"

definition represents :: "frame \<Rightarrow> heap \<Rightarrow> state \<Rightarrow> bool" where
  "represents fr h st \<longleftrightarrow>
     load h (names_ref fr) = Some (Names (all_names st)) \<and>
     load h (result_ref fr) = Some (Assignment (assignments st)) \<and>
     (\<exists>idx. load h (index_ref fr) = Some (Index idx) \<and>
        index_rel h idx (valid_assignments st) \<and>
        distinct (names_ref fr # result_ref fr # index_ref fr # dict_values idx))"

section \<open>Auxiliary facts\<close>

subsection \<open>Dicts\<close>

lemma dict_get_map_of:
  "dict_get d k = (case map_of d k of None \<Rightarrow> Inl KeyError | Some v \<Rightarrow> Inr v)"
  by (induction d) auto

lemma dict_get_Inr_iff: "dict_get d k = Inr v \<longleftrightarrow> map_of d k = Some v"
  by (simp add: dict_get_map_of split: option.splits)

lemma dict_get_key: "k \<in> set (dict_keys d) \<Longrightarrow> \<exists>v. dict_get d k = Inr v"
  by (cases "map_of d k") (auto simp: dict_get_map_of dict_keys_def map_of_eq_None_iff)

lemma dict_get_in_items: "dict_get d k = Inr v \<Longrightarrow> (k, v) \<in> set d"
  by (induction d) (auto split: if_splits)

lemma map_of_dict_set: "map_of (dict_set k v d) = (map_of d)(k \<mapsto> v)"
  by (induction d) auto

lemma keys_dict_set: "set (dict_keys (dict_set k v d)) = insert k (set (dict_keys d))"
  using arg_cong[OF map_of_dict_set[of k v d], of dom]
  by (simp add: dict_keys_def dom_map_of_conv_image_fst)

lemma dict_set_new: "k \<notin> set (dict_keys d) \<Longrightarrow> dict_set k v d = d @ [(k, v)]"
  by (induction d) (auto simp: dict_keys_def)

lemma dict_get_dict_set:
  "dict_get (dict_set k v d) g = (if g = k then Inr v else dict_get d g)"
  by (simp add: dict_get_map_of map_of_dict_set)

subsection \<open>Initial state\<close>

lemma set_candidate_filter:
  "dict_get ps g = Inr partner \<Longrightarrow>
   set [n \<leftarrow> dict_keys ps. n \<noteq> g \<and> Some n \<noteq> partner] = candidate_set ps g"
  by (auto simp: candidate_set_def)

lemma build_valid_assignments_ok:
  "set names \<subseteq> set (dict_keys ps) \<Longrightarrow>
   \<exists>valid. build_valid_assignments ps (dict_keys ps) names = Inr valid \<and>
     map fst valid = names \<and> (\<forall>(g, c) \<in> set valid. set c = candidate_set ps g)"
proof (induction names)
  case Nil
  then show ?case by simp
next
  case (Cons g names)
  then obtain partner where p: "dict_get ps g = Inr partner"
    using dict_get_key[of g ps] by auto
  from Cons obtain valid where
    "build_valid_assignments ps (dict_keys ps) names = Inr valid"
    "map fst valid = names" "\<forall>(g, c) \<in> set valid. set c = candidate_set ps g"
    by auto
  with p set_candidate_filter[OF p] show ?case by simp
qed

lemma initial_state_ok:
  "\<exists>valid. initial_state ps pre =
      Inr \<lparr> all_names = [name \<leftarrow> dict_keys ps. name \<notin> set (dict_keys pre)],
            assignments = pre, valid_assignments = valid \<rparr> \<and>
     map fst valid = dict_keys ps \<and> (\<forall>(g, c) \<in> set valid. set c = candidate_set ps g)"
  using build_valid_assignments_ok[of "dict_keys ps" ps]
  by (auto simp: initial_state_def Let_def)

subsection \<open>One iteration\<close>

lemma step_SomeD:
  assumes "step r1 r2 st = Inr (Some st')"
  shows "\<exists>santa cands giftee.
           santa \<in> set (all_names st) \<and> choice r1 (all_names st) = Inr santa \<and>
           dict_get (valid_assignments st) santa = Inr cands \<and>
           giftee \<in> set cands \<and> giftee \<notin> set (dict_values (assignments st)) \<and>
           st' = \<lparr> all_names = remove1 santa (all_names st),
                   assignments = dict_set santa giftee (assignments st),
                   valid_assignments = remove_giftee giftee (valid_assignments st) \<rparr>"
proof -
  from assms have ne: "all_names st \<noteq> []"
    by (auto simp: step_def choice_def split: if_splits)
  define santa where "santa = all_names st ! (r1 mod length (all_names st))"
  have santa_in: "santa \<in> set (all_names st)"
    using ne by (simp add: santa_def)
  have ch: "choice r1 (all_names st) = Inr santa"
    using ne by (simp add: choice_def santa_def)
  from assms ch obtain cands where c: "dict_get (valid_assignments st) santa = Inr cands"
    by (auto simp: step_def split: sum.splits)
  define poss where "poss = [r \<leftarrow> cands. r \<notin> set (dict_values (assignments st))]"
  from assms ch c have pne: "poss \<noteq> []"
    by (auto simp: step_def poss_def Let_def split: if_splits)
  define giftee where "giftee = poss ! (r2 mod length poss)"
  have "giftee \<in> set poss" using pne by (simp add: giftee_def)
  then have g: "giftee \<in> set cands" "giftee \<notin> set (dict_values (assignments st))"
    by (auto simp: poss_def)
  have ch2: "choice r2 poss = Inr giftee"
    using pne by (simp add: choice_def giftee_def)
  from assms ch c pne santa_in ch2 have
    "st' = \<lparr> all_names = remove1 santa (all_names st),
             assignments = dict_set santa giftee (assignments st),
             valid_assignments = remove_giftee giftee (valid_assignments st) \<rparr>"
    by (simp add: step_def poss_def[symmetric] Let_def list_remove_def)
  with santa_in ch c g show ?thesis by blast
qed

lemma step_cases:
  assumes "all_names st \<noteq> []"
    and "set (all_names st) \<subseteq> set (dict_keys (valid_assignments st))"
  shows "\<exists>santa cands. choice r1 (all_names st) = Inr santa \<and>
           dict_get (valid_assignments st) santa = Inr cands \<and>
           (if set cands \<subseteq> set (dict_values (assignments st)) then step r1 r2 st = Inr None
            else \<exists>st'. step r1 r2 st = Inr (Some st'))"
proof -
  define santa where "santa = all_names st ! (r1 mod length (all_names st))"
  have santa_in: "santa \<in> set (all_names st)"
    using assms(1) by (simp add: santa_def)
  have ch: "choice r1 (all_names st) = Inr santa"
    using assms(1) by (simp add: choice_def santa_def)
  from santa_in assms(2) obtain cands where
    c: "dict_get (valid_assignments st) santa = Inr cands"
    using dict_get_key[of santa "valid_assignments st"] by auto
  define poss where "poss = [r \<leftarrow> cands. r \<notin> set (dict_values (assignments st))]"
  have e: "poss = [] \<longleftrightarrow> set cands \<subseteq> set (dict_values (assignments st))"
    by (auto simp: poss_def filter_empty_conv)
  have "step r1 r2 st = Inr None" if "poss = []"
    using that ch c by (simp add: step_def poss_def[symmetric])
  moreover have "\<exists>st'. step r1 r2 st = Inr (Some st')" if "poss \<noteq> []"
    using that ch c santa_in
    by (simp add: step_def poss_def[symmetric] choice_def list_remove_def)
  ultimately show ?thesis using ch c e by auto
qed

subsection \<open>The loop\<close>

lemma while_loop_invariant:
  assumes "while_loop rnd st = Inr (Some m)"
    and "I st"
    and "\<And>s r1 r2 s'. I s \<Longrightarrow> step r1 r2 s = Inr (Some s') \<Longrightarrow> I s'"
  shows "\<exists>fin. I fin \<and> all_names fin = [] \<and> assignments fin = m"
  using assms(1,2)
proof (induction rnd st rule: while_loop.induct)
  case (1 rnd st)
  show ?case
  proof (cases "all_names st = []")
    case True
    with 1 show ?thesis by (auto simp: while_loop.simps[of rnd st])
  next
    case False
    with "1.prems" obtain st' where s: "step (rnd 0) (rnd 1) st = Inr (Some st')"
      and w: "while_loop (\<lambda>i. rnd (i + 2)) st' = Inr (Some m)"
      by (auto simp: while_loop.simps[of rnd st] split: sum.splits option.splits)
    from assms(3)[OF "1.prems"(2) s] have "I st'" .
    from "1.IH"[OF False s refl w this] show ?thesis .
  qed
qed

lemma feasible_from_eq:
  "set names \<subseteq> set (dict_keys ps) \<Longrightarrow>
   feasible_from ps names = Inr (\<not> (\<exists>P \<in> set names. candidate_set ps P = {}))"
proof (induction names)
  case Nil
  then show ?case by simp
next
  case (Cons g names)
  then obtain partner where p: "dict_get ps g = Inr partner"
    using dict_get_key[of g ps] by auto
  have "[n \<leftarrow> dict_keys ps. n \<noteq> g \<and> Some n \<noteq> partner] = [] \<longleftrightarrow> candidate_set ps g = {}"
    using set_candidate_filter[OF p] by (metis set_empty)
  with Cons p show ?case by (simp add: Let_def)
qed

lemma keys_remove_giftee: "dict_keys (remove_giftee x valid) = dict_keys valid"
  by (induction valid) (auto simp: remove_giftee_def dict_keys_def)

lemma items_remove_giftee:
  "(g, c) \<in> set (remove_giftee x valid) \<Longrightarrow>
   \<exists>c0. (g, c0) \<in> set valid \<and> c = remove1 x c0"
  by (induction valid) (auto simp: remove_giftee_def remove1_idem)

lemma wf_initial:
  "\<exists>st. initial_state ps pre = Inr st \<and> well_formed ps st \<and>
     all_names st = [name \<leftarrow> dict_keys ps. name \<notin> set (dict_keys pre)] \<and>
     assignments st = pre"
  using initial_state_ok[of ps pre] by (fastforce simp: well_formed_def dict_keys_def)

lemma wf_step:
  assumes "well_formed ps st" and "step r1 r2 st = Inr (Some st')"
  shows "well_formed ps st'"
proof -
  from step_SomeD[OF assms(2)] obtain santa cands giftee where
    st': "st' = \<lparr> all_names = remove1 santa (all_names st),
                   assignments = dict_set santa giftee (assignments st),
                   valid_assignments = remove_giftee giftee (valid_assignments st) \<rparr>"
    by blast
  have "set (remove1 santa (all_names st)) \<subseteq> set (dict_keys ps)"
    using assms(1) set_remove1_subset[of santa "all_names st"] by (auto simp: well_formed_def)
  moreover have "set c \<subseteq> candidate_set ps g"
    if "(g, c) \<in> set (remove_giftee giftee (valid_assignments st))" for g c
  proof -
    from items_remove_giftee[OF that] obtain c0 where
      c0: "(g, c0) \<in> set (valid_assignments st)" "c = remove1 giftee c0" by blast
    from assms(1) c0(1) have "set c0 \<subseteq> candidate_set ps g"
      unfolding well_formed_def by blast
    with set_remove1_subset[of giftee c0] c0(2) show ?thesis by blast
  qed
  ultimately show ?thesis using assms(1) by (simp add: well_formed_def st' keys_remove_giftee)
qed

lemma wf_step_cases:
  assumes "well_formed ps st" and "all_names st \<noteq> []"
  shows "step r1 r2 st = Inr None \<or> (\<exists>st'. step r1 r2 st = Inr (Some st'))"
  using step_cases[OF assms(2), of r1 r2] assms(1)
  by (auto simp: well_formed_def split: if_splits)

lemma while_loop_returns:
  "well_formed ps st \<Longrightarrow> \<exists>r. while_loop rnd st = Inr r"
proof (induction rnd st rule: while_loop.induct)
  case (1 rnd st)
  show ?case
  proof (cases "all_names st = []")
    case True
    then show ?thesis by (simp add: while_loop.simps[of rnd st])
  next
    case False
    from wf_step_cases[OF "1.prems" False, of "rnd 0" "rnd 1"] show ?thesis
    proof
      assume "step (rnd 0) (rnd 1) st = Inr None"
      with False show ?thesis by (simp add: while_loop.simps[of rnd st])
    next
      assume "\<exists>st'. step (rnd 0) (rnd 1) st = Inr (Some st')"
      then obtain st' where s: "step (rnd 0) (rnd 1) st = Inr (Some st')" ..
      from "1.IH"[OF False s refl wf_step[OF "1.prems" s]] s False
      show ?thesis by (simp add: while_loop.simps[of rnd st])
    qed
  qed
qed

lemma assign_returns: "\<exists>r. assign_secret_santa ps pre rnd = Inr r"
proof -
  from wf_initial[of ps pre] obtain st where "initial_state ps pre = Inr st" "well_formed ps st"
    by blast
  with while_loop_returns[of ps st rnd] show ?thesis
    by (simp add: assign_secret_santa_def)
qed

subsection \<open>Invariants of the loop\<close>

lemma inv_initial:
  "search_inv ps pre \<lparr> all_names = [name \<leftarrow> dict_keys ps. name \<notin> set (dict_keys pre)],
                 assignments = pre, valid_assignments = valid \<rparr>"
proof -
  have "g \<in> set (dict_keys pre)" if "dict_get pre g = Inr r" for g r
    using dict_get_in_items[OF that] by (force simp: dict_keys_def)
  then show ?thesis by (auto simp: search_inv_def)
qed

lemma inv_step:
  assumes "well_formed ps st" and "search_inv ps pre st" and "step r1 r2 st = Inr (Some st')"
  shows "search_inv ps pre st'"
proof -
  from step_SomeD[OF assms(3)] obtain santa cands giftee where
    santa: "santa \<in> set (all_names st)"
    and cands: "dict_get (valid_assignments st) santa = Inr cands"
    and giftee: "giftee \<in> set cands"
    and st': "st' = \<lparr> all_names = remove1 santa (all_names st),
                   assignments = dict_set santa giftee (assignments st),
                   valid_assignments = remove_giftee giftee (valid_assignments st) \<rparr>"
    by blast
  from santa assms(2) have not_pre: "santa \<notin> set (dict_keys pre)"
    by (auto simp: search_inv_def)
  from assms(1) dict_get_in_items[OF cands] giftee have ok: "giftee \<in> candidate_set ps santa"
    unfolding well_formed_def by blast
  have a: "set (remove1 santa (all_names st)) \<inter> set (dict_keys pre) = {}"
    using assms(2) set_remove1_subset[of santa "all_names st"] by (auto simp: search_inv_def)
  have b: "dict_get (dict_set santa giftee (assignments st)) g = dict_get pre g"
    if "g \<in> set (dict_keys pre)" for g
    using that not_pre assms(2) by (auto simp: dict_get_dict_set search_inv_def)
  have c: "g \<in> set (dict_keys pre) \<or> r \<in> candidate_set ps g"
    if "dict_get (dict_set santa giftee (assignments st)) g = Inr r" for g r
  proof (cases "g = santa")
    case True
    with that ok show ?thesis by (simp add: dict_get_dict_set)
  next
    case False
    with that assms(2) show ?thesis by (simp add: dict_get_dict_set search_inv_def)
  qed
  have "set (all_names st) \<subseteq> insert santa (set (remove1 santa (all_names st)))"
    by (metis insert_iff set_remove1_eq subsetI notin_set_remove1 in_set_remove1)
  with assms(2) have d: "set (dict_keys ps) \<subseteq> set (dict_keys pre) \<union>
      set (remove1 santa (all_names st)) \<union>
      set (dict_keys (dict_set santa giftee (assignments st)))"
    by (auto simp: search_inv_def keys_dict_set)
  from a b c d show ?thesis unfolding search_inv_def st' by simp
qed

lemma assign_final_state:
  assumes "assign_secret_santa ps pre rnd = Inr (Some m)"
  shows "\<exists>fin. well_formed ps fin \<and> search_inv ps pre fin \<and> all_names fin = [] \<and> assignments fin = m"
proof -
  from wf_initial[of ps pre] obtain st where
    i: "initial_state ps pre = Inr st" and w: "well_formed ps st"
    and n: "all_names st = [name \<leftarrow> dict_keys ps. name \<notin> set (dict_keys pre)]"
    and a: "assignments st = pre"
    by blast
  have "st = \<lparr> all_names = [name \<leftarrow> dict_keys ps. name \<notin> set (dict_keys pre)],
               assignments = pre, valid_assignments = valid_assignments st \<rparr>"
    using n a by simp
  with inv_initial[of ps pre "valid_assignments st"] have j: "search_inv ps pre st" by simp
  from assms i have l: "while_loop rnd st = Inr (Some m)"
    by (simp add: assign_secret_santa_def)
  from while_loop_invariant[where I = "\<lambda>s. well_formed ps s \<and> search_inv ps pre s", OF l] w j
    wf_step inv_step
  show ?thesis by blast
qed

lemma dict_get_keyD: "dict_get d k = Inr v \<Longrightarrow> k \<in> set (dict_keys d)"
  using dict_get_in_items[of d k v] by (force simp: dict_keys_def)

lemma fresh_initial:
  "distinct (dict_keys ps) \<Longrightarrow>
   fresh \<lparr> all_names = [name \<leftarrow> dict_keys ps. name \<notin> set (dict_keys pre)],
           assignments = pre, valid_assignments = valid \<rparr>"
  by (auto simp: fresh_def)

lemma step_fresh:
  assumes "fresh st" and "step r1 r2 st = Inr (Some st')"
  shows "\<exists>santa cands giftee.
           santa \<in> set (all_names st) \<and> santa \<notin> set (dict_keys (assignments st)) \<and>
           dict_get (valid_assignments st) santa = Inr cands \<and>
           giftee \<in> set cands \<and> giftee \<notin> set (dict_values (assignments st)) \<and>
           all_names st' = remove1 santa (all_names st) \<and>
           assignments st' = assignments st @ [(santa, giftee)] \<and>
           valid_assignments st' = remove_giftee giftee (valid_assignments st)"
proof -
  from step_SomeD[OF assms(2)] obtain santa cands giftee where
    s: "santa \<in> set (all_names st)"
    "dict_get (valid_assignments st) santa = Inr cands"
    "giftee \<in> set cands" "giftee \<notin> set (dict_values (assignments st))"
    and st': "st' = \<lparr> all_names = remove1 santa (all_names st),
                   assignments = dict_set santa giftee (assignments st),
                   valid_assignments = remove_giftee giftee (valid_assignments st) \<rparr>"
    by blast
  from s(1) assms(1) have n: "santa \<notin> set (dict_keys (assignments st))"
    by (auto simp: fresh_def)
  from st' dict_set_new[OF n, of giftee] have
    "all_names st' = remove1 santa (all_names st)"
    "assignments st' = assignments st @ [(santa, giftee)]"
    "valid_assignments st' = remove_giftee giftee (valid_assignments st)"
    by simp_all
  with s n show ?thesis by blast
qed

lemma fresh_step:
  assumes "fresh st" and "step r1 r2 st = Inr (Some st')"
  shows "fresh st'"
proof -
  from step_fresh[OF assms] obtain santa giftee where
    "all_names st' = remove1 santa (all_names st)"
    "assignments st' = assignments st @ [(santa, giftee)]"
    by blast
  with assms(1) show ?thesis
    by (auto simp: fresh_def dict_keys_def dest: notin_set_remove1)
qed

lemma vals_inv_step:
  assumes "well_formed ps st" and "fresh st" and "vals_inv ps st" and "step r1 r2 st = Inr (Some st')"
  shows "vals_inv ps st'"
proof -
  from step_fresh[OF assms(2,4)] obtain santa cands giftee where
    s: "santa \<in> set (all_names st)" "santa \<notin> set (dict_keys (assignments st))"
    "dict_get (valid_assignments st) santa = Inr cands"
    "giftee \<in> set cands" "giftee \<notin> set (dict_values (assignments st))"
    and a: "assignments st' = assignments st @ [(santa, giftee)]"
    by blast
  from assms(1) dict_get_in_items[OF s(3)] s(4) have "giftee \<in> candidate_set ps santa"
    unfolding well_formed_def by blast
  then have g: "giftee \<in> set (dict_keys ps)" by (simp add: candidate_set_def)
  from assms(1) s(1) have k: "santa \<in> set (dict_keys ps)" by (auto simp: well_formed_def)
  from assms(3) s(2,5) g k show ?thesis
    by (simp add: vals_inv_def a dict_keys_def dict_values_def)
qed

lemma distinct_same_set_onto:
  assumes "distinct ks" and "distinct vs" and "length vs = length ks" and "set vs \<subseteq> set ks"
  shows "set vs = set ks"
proof -
  have "card (set vs) = card (set ks)"
    using assms(1-3) by (simp add: distinct_card)
  with assms(4) show ?thesis by (simp add: card_subset_eq)
qed

lemma assign_bijection:
  assumes "assign_secret_santa ps pre rnd = Inr (Some m)"
    and "distinct (dict_keys ps)" and "distinct (dict_keys pre)"
    and "set (dict_keys pre) \<subseteq> set (dict_keys ps)"
    and "set (dict_values pre) \<subseteq> set (dict_keys ps)"
    and "distinct (dict_values pre)"
  shows "set (dict_keys m) = set (dict_keys ps) \<and> distinct (dict_keys m) \<and>
         set (dict_values m) = set (dict_keys ps) \<and> distinct (dict_values m)"
proof -
  from wf_initial[of ps pre] obtain st where
    i: "initial_state ps pre = Inr st" and w: "well_formed ps st"
    and n: "all_names st = [name \<leftarrow> dict_keys ps. name \<notin> set (dict_keys pre)]"
    and a: "assignments st = pre"
    by blast
  have st: "st = \<lparr> all_names = [name \<leftarrow> dict_keys ps. name \<notin> set (dict_keys pre)],
               assignments = pre, valid_assignments = valid_assignments st \<rparr>"
    using n a by simp
  from inv_initial[of ps pre "valid_assignments st"] st have j: "search_inv ps pre st" by simp
  from fresh_initial[OF assms(2), of pre "valid_assignments st"] st have f: "fresh st"
    by simp
  from assms(3-6) a have v: "vals_inv ps st" by (simp add: vals_inv_def)
  from assms(1) i have l: "while_loop rnd st = Inr (Some m)"
    by (simp add: assign_secret_santa_def)
  have "\<exists>fin. (well_formed ps fin \<and> search_inv ps pre fin \<and> fresh fin \<and> vals_inv ps fin) \<and>
      all_names fin = [] \<and> assignments fin = m"
  proof (rule while_loop_invariant[where I = "\<lambda>s. well_formed ps s \<and> search_inv ps pre s \<and> fresh s \<and> vals_inv ps s",
      OF l])
    show "well_formed ps st \<and> search_inv ps pre st \<and> fresh st \<and> vals_inv ps st"
      using w j f v by simp
  next
    fix s r1 r2 s'
    assume "well_formed ps s \<and> search_inv ps pre s \<and> fresh s \<and> vals_inv ps s"
      and "step r1 r2 s = Inr (Some s')"
    then show "well_formed ps s' \<and> search_inv ps pre s' \<and> fresh s' \<and> vals_inv ps s'"
      using wf_step[of ps s r1 r2 s'] inv_step[of ps s pre r1 r2 s']
        fresh_step[of s r1 r2 s'] vals_inv_step[of ps s r1 r2 s'] by simp
  qed
  then
  obtain fin where fin: "well_formed ps fin" "search_inv ps pre fin" "vals_inv ps fin"
    "all_names fin = []" "assignments fin = m"
    by blast
  have "g \<in> set (dict_keys m)" if "g \<in> set (dict_keys pre)" for g
  proof -
    from that obtain r where "dict_get pre g = Inr r" using dict_get_key by fastforce
    with fin(2,5) that have "dict_get m g = Inr r" by (simp add: search_inv_def)
    then show ?thesis by (rule dict_get_keyD)
  qed
  with fin(2,4,5) have "set (dict_keys ps) \<subseteq> set (dict_keys m)"
    by (auto simp: search_inv_def)
  with fin(3,5) have keys: "set (dict_keys m) = set (dict_keys ps)"
    by (auto simp: vals_inv_def)
  from fin(3,5) have d: "distinct (dict_keys m)" "distinct (dict_values m)"
    "set (dict_values m) \<subseteq> set (dict_keys ps)"
    by (simp_all add: vals_inv_def)
  have "length (dict_values m) = length (dict_keys m)"
    by (simp add: dict_values_def dict_keys_def)
  from distinct_same_set_onto[OF d(1,2) this] d(3) keys
  have "set (dict_values m) = set (dict_keys ps)" by simp
  with keys d show ?thesis by simp
qed

subsection \<open>Evaluation\<close>

lemmas run_simps = assign_secret_santa_def initial_state_def while_loop.simps step_def
  choice_def list_remove_def remove_giftee_def dict_keys_def dict_values_def Let_def

lemma count_list_distinct: "distinct xs \<Longrightarrow> x \<in> set xs \<Longrightarrow> count_list xs x = 1"
  by (induction xs) auto

subsection \<open>Soundness of a completed attempt\<close>

lemma choice_one: "choice r [x] = Inr x"
  by (simp add: choice_def)

lemma choice_two: "choice r [x, y] = Inr (if r mod 2 = 0 then x else y)"
proof -
  have l: "length [x, y] = 2" by simp
  have "r mod 2 = 0 \<or> r mod 2 = 1" by arith
  then show ?thesis
  proof
    assume z: "r mod 2 = 0"
    show ?thesis unfolding choice_def l z by simp
  next
    assume o: "r mod 2 = 1"
    show ?thesis unfolding choice_def l o by simp
  qed
qed

lemma dict_get_item: "distinct (dict_keys d) \<Longrightarrow> (k, v) \<in> set d \<Longrightarrow> dict_get d k = Inr v"
  by (simp add: dict_get_Inr_iff dict_keys_def)

lemma assign_result_valid:
  assumes "assign_secret_santa ps [] rnd = Inr (Some m)" and "distinct (dict_keys ps)"
  shows "valid_assignment ps m"
proof -
  from assign_bijection[OF assms(1,2)] have b:
    "set (dict_keys m) = set (dict_keys ps)" "distinct (dict_keys m)"
    "set (dict_values m) = set (dict_keys ps)" "distinct (dict_values m)"
    by (simp_all add: dict_keys_def dict_values_def)
  from assign_final_state[OF assms(1)] obtain fin where
    fin: "search_inv ps [] fin" "assignments fin = m" by blast
  have "r \<in> candidate_set ps g" if "(g, r) \<in> set m" for g r
  proof -
    from dict_get_item[OF b(2) that] fin show ?thesis
      by (auto simp: search_inv_def dict_keys_def)
  qed
  with b show ?thesis by (auto simp: valid_assignment_def)
qed

lemma same_value_same_key:
  "distinct (dict_values m) \<Longrightarrow> (a, v) \<in> set m \<Longrightarrow> (b, v) \<in> set m \<Longrightarrow> a = b"
proof -
  assume d: "distinct (dict_values m)" and a: "(a, v) \<in> set m" and b: "(b, v) \<in> set m"
  from d have "inj_on snd (set m)" by (simp add: dict_values_def distinct_map)
  from inj_onD[OF this _ a b] show ?thesis by simp
qed

lemma key_has_item: "k \<in> set (dict_keys d) \<Longrightarrow> \<exists>v. (k, v) \<in> set d"
  by (auto simp: dict_keys_def)

lemma couple_and_single_unsatisfiable:
  "\<not> valid_assignment [(''A'', Some ''B''), (''B'', Some ''A''), (''C'', None)] m"
proof
  let ?ps = "[(''A'', Some ''B''), (''B'', Some ''A''), (''C'', None)]"
  assume v: "valid_assignment ?ps m"
  then have "''A'' \<in> set (dict_keys m)" "''B'' \<in> set (dict_keys m)"
    by (simp_all add: valid_assignment_def dict_keys_def)
  then obtain ra rb where i: "(''A'', ra) \<in> set m" "(''B'', rb) \<in> set m"
    using key_has_item by metis
  with v have "ra \<in> candidate_set ?ps ''A''" "rb \<in> candidate_set ?ps ''B''"
    by (auto simp: valid_assignment_def)
  then have "ra = ''C''" "rb = ''C''"
    by (auto simp: candidate_set_def dict_keys_def)
  with i v same_value_same_key[of m "''A''" "''C''" "''B''"] show False
    by (simp add: valid_assignment_def)
qed

subsection \<open>States reached by the loop\<close>

lemma state_after_length:
  "state_after i rnd st = Some s \<Longrightarrow> i + length (all_names s) = length (all_names st)"
proof (induction i arbitrary: rnd st)
  case 0
  then show ?case by simp
next
  case (Suc i)
  from Suc.prems obtain st' where
    ne: "all_names st \<noteq> []" and s: "step (rnd 0) (rnd 1) st = Inr (Some st')"
    and a: "state_after i (\<lambda>j. rnd (j + 2)) st' = Some s"
    by (auto split: if_splits sum.splits option.splits)
  from step_SomeD[OF s] obtain santa where
    "santa \<in> set (all_names st)" "all_names st' = remove1 santa (all_names st)"
    by auto
  then have "Suc (length (all_names st')) = length (all_names st)"
    using ne by (simp add: length_remove1 Suc_pred)
  with Suc.IH[OF a] show ?case by simp
qed

lemma state_after_invariant:
  assumes "state_after i rnd st = Some s" and "I st"
    and "\<And>s r1 r2 s'. I s \<Longrightarrow> step r1 r2 s = Inr (Some s') \<Longrightarrow> I s'"
  shows "I s"
  using assms(1,2)
proof (induction i arbitrary: rnd st)
  case 0
  then show ?case by simp
next
  case (Suc i)
  from Suc.prems(1) obtain st' where
    s: "step (rnd 0) (rnd 1) st = Inr (Some st')"
    and a: "state_after i (\<lambda>j. rnd (j + 2)) st' = Some s"
    by (auto split: if_splits sum.splits option.splits)
  from Suc.IH[OF a assms(3)[OF Suc.prems(2) s]] show ?case .
qed

lemma state_after_Suc:
  "state_after i rnd st = Some s \<Longrightarrow>
   state_after (Suc i) rnd st =
     (if all_names s = [] then None
      else (case step (rnd (2 * i)) (rnd (2 * i + 1)) s of
              Inr (Some s') \<Rightarrow> Some s' | _ \<Rightarrow> None))"
proof (induction i arbitrary: rnd st)
  case 0
  then show ?case by (auto split: sum.splits option.splits)
next
  case (Suc i)
  from Suc.prems obtain st' where
    ne: "all_names st \<noteq> []" and s: "step (rnd 0) (rnd 1) st = Inr (Some st')"
    and a: "state_after i (\<lambda>j. rnd (j + 2)) st' = Some s"
    by (auto split: if_splits sum.splits option.splits)
  have "state_after (Suc (Suc i)) rnd st = state_after (Suc i) (\<lambda>j. rnd (j + 2)) st'"
    using ne s by simp
  also note Suc.IH[OF a]
  finally show ?case by (simp add: add.commute)
qed

lemma step_progress:
  assumes "well_formed ps st" and "all_names st \<noteq> []"
  shows "\<exists>santa. choice r1 (all_names st) = Inr santa \<and>
           (step r1 r2 st = Inr None \<or>
            (\<exists>st'. step r1 r2 st = Inr (Some st') \<and>
                   all_names st' = remove1 santa (all_names st)))"
proof -
  from wf_step_cases[OF assms, of r1 r2] show ?thesis
  proof
    assume "step r1 r2 st = Inr None"
    then show ?thesis using assms(2) by (simp add: choice_def)
  next
    assume "\<exists>st'. step r1 r2 st = Inr (Some st')"
    then obtain st' where s: "step r1 r2 st = Inr (Some st')" ..
    from step_SomeD[OF s] s show ?thesis by auto
  qed
qed


subsection \<open>Getting stuck\<close>

lemma set_remove1_minus: "set (remove1 x xs) - insert x V = set xs - insert x V"
  by (auto simp: in_set_remove1 dest: notin_set_remove1)

lemma search_initial:
  assumes "distinct (dict_keys ps)"
  shows "\<exists>st. initial_state ps pre = Inr st \<and> well_formed ps st \<and> fresh st \<and> avail_inv ps st"
proof -
  from initial_state_ok[of ps pre] obtain valid where
    i: "initial_state ps pre =
      Inr \<lparr> all_names = [name \<leftarrow> dict_keys ps. name \<notin> set (dict_keys pre)],
            assignments = pre, valid_assignments = valid \<rparr>"
    and k: "map fst valid = dict_keys ps"
    and c: "\<forall>(g, c) \<in> set valid. set c = candidate_set ps g"
    by blast
  let ?st = "\<lparr> all_names = [name \<leftarrow> dict_keys ps. name \<notin> set (dict_keys pre)],
            assignments = pre, valid_assignments = valid \<rparr>"
  from wf_initial[of ps pre] i have "well_formed ps ?st" by auto
  moreover from fresh_initial[OF assms] have "fresh ?st" .
  moreover from c have "avail_inv ps ?st"
    by (auto simp: avail_inv_def available_def)
  ultimately show ?thesis using i by blast
qed

lemma avail_step:
  assumes "fresh st" and "avail_inv ps st" and "step r1 r2 st = Inr (Some st')"
  shows "avail_inv ps st'"
proof -
  from step_fresh[OF assms(1,3)] obtain santa giftee where
    a: "assignments st' = assignments st @ [(santa, giftee)]"
    and v: "valid_assignments st' = remove_giftee giftee (valid_assignments st)"
    by blast
  let ?V = "set (dict_values (assignments st))"
  have V': "set (dict_values (assignments st')) = insert giftee ?V"
    by (simp add: a dict_values_def)
  have "set c - insert giftee ?V = candidate_set ps g - insert giftee ?V"
    if "(g, c) \<in> set (remove_giftee giftee (valid_assignments st))" for g c
  proof -
    from items_remove_giftee[OF that] obtain c0 where
      c0: "(g, c0) \<in> set (valid_assignments st)" "c = remove1 giftee c0" by blast
    from assms(2) c0(1) have "set c0 - ?V = candidate_set ps g - ?V"
      unfolding avail_inv_def available_def by blast
    then have "set c0 - insert giftee ?V = candidate_set ps g - insert giftee ?V"
      by blast
    with c0(2) show ?thesis by (simp add: set_remove1_minus)
  qed
  then show ?thesis unfolding avail_inv_def available_def V' v by blast
qed

lemma stuck_iff:
  assumes "well_formed ps st" and "avail_inv ps st" and "all_names st \<noteq> []"
  shows "\<exists>santa. choice r1 (all_names st) = Inr santa \<and>
           (step r1 r2 st = Inr None \<longleftrightarrow> available ps (assignments st) santa = {}) \<and>
           (step r1 r2 st = Inr None \<or> (\<exists>st'. step r1 r2 st = Inr (Some st')))"
proof -
  from assms(1) have "set (all_names st) \<subseteq> set (dict_keys (valid_assignments st))"
    by (simp add: well_formed_def)
  from step_cases[OF assms(3) this, of r1 r2] obtain santa cands where
    c: "choice r1 (all_names st) = Inr santa"
    and d: "dict_get (valid_assignments st) santa = Inr cands"
    and s: "if set cands \<subseteq> set (dict_values (assignments st))
            then step r1 r2 st = Inr None else \<exists>st'. step r1 r2 st = Inr (Some st')"
    by blast
  from assms(2) dict_get_in_items[OF d] have
    "set cands - set (dict_values (assignments st)) = available ps (assignments st) santa"
    unfolding avail_inv_def by blast
  then have e: "set cands \<subseteq> set (dict_values (assignments st)) \<longleftrightarrow>
      available ps (assignments st) santa = {}"
    by auto
  show ?thesis
  proof (cases "set cands \<subseteq> set (dict_values (assignments st))")
    case True
    with s e c show ?thesis by auto
  next
    case False
    with s obtain st' where "step r1 r2 st = Inr (Some st')" by auto
    with False e c show ?thesis by auto
  qed
qed

lemma loop_None_stuck:
  assumes "well_formed ps st" and "fresh st" and "avail_inv ps st" and "while_loop rnd st = Inr None"
  shows "\<exists>i s santa. state_after i rnd st = Some s \<and>
           choice (rnd (2 * i)) (all_names s) = Inr santa \<and>
           available ps (assignments s) santa = {}"
  using assms
proof (induction rnd st rule: while_loop.induct)
  case (1 rnd st)
  from "1.prems"(4) have ne: "all_names st \<noteq> []"
    by (auto simp: while_loop.simps[of rnd st] split: if_splits)
  from stuck_iff[OF "1.prems"(1,3) ne, of "rnd 0" "rnd 1"] obtain santa where
    c: "choice (rnd 0) (all_names st) = Inr santa"
    and e: "step (rnd 0) (rnd 1) st = Inr None \<longleftrightarrow> available ps (assignments st) santa = {}"
    and d: "step (rnd 0) (rnd 1) st = Inr None \<or> (\<exists>st'. step (rnd 0) (rnd 1) st = Inr (Some st'))"
    by blast
  from d show ?case
  proof
    assume "step (rnd 0) (rnd 1) st = Inr None"
    with e c have "state_after 0 rnd st = Some st \<and>
        choice (rnd (2 * 0)) (all_names st) = Inr santa \<and>
        available ps (assignments st) santa = {}" by simp
    then show ?thesis by blast
  next
    assume "\<exists>st'. step (rnd 0) (rnd 1) st = Inr (Some st')"
    then obtain st' where s: "step (rnd 0) (rnd 1) st = Inr (Some st')" ..
    with "1.prems"(4) ne have w: "while_loop (\<lambda>i. rnd (i + 2)) st' = Inr None"
      by (simp add: while_loop.simps[of rnd st])
    from "1.IH"[OF ne s refl wf_step[OF "1.prems"(1) s] fresh_step[OF "1.prems"(2) s]
        avail_step[OF "1.prems"(2,3) s] w]
    obtain i s' santa' where
      a: "state_after i (\<lambda>i. rnd (i + 2)) st' = Some s'"
      and b: "choice (rnd (2 * i + 2)) (all_names s') = Inr santa'"
      and f: "available ps (assignments s') santa' = {}"
      by auto
    from a ne s have "state_after (Suc i) rnd st = Some s'" by simp
    moreover from b have "choice (rnd (2 * Suc i)) (all_names s') = Inr santa'" by simp
    ultimately show ?thesis using f by blast
  qed
qed

lemma stuck_loop_None:
  assumes "well_formed ps st" and "fresh st" and "avail_inv ps st"
    and "state_after i rnd st = Some s"
    and "choice (rnd (2 * i)) (all_names s) = Inr santa"
    and "available ps (assignments s) santa = {}"
  shows "while_loop rnd st = Inr None"
  using assms
proof (induction i arbitrary: rnd st)
  case 0
  then have s: "s = st" by simp
  from "0.prems"(5) s have ne: "all_names st \<noteq> []"
    by (auto simp: choice_def split: if_splits)
  from stuck_iff[OF "0.prems"(1,3) ne, of "rnd 0" "rnd 1"] "0.prems"(5,6) s
  have "step (rnd 0) (rnd 1) st = Inr None" by auto
  with ne show ?case by (simp add: while_loop.simps[of rnd st])
next
  case (Suc i)
  from Suc.prems(4) obtain st' where
    ne: "all_names st \<noteq> []" and s: "step (rnd 0) (rnd 1) st = Inr (Some st')"
    and a: "state_after i (\<lambda>j. rnd (j + 2)) st' = Some s"
    by (auto split: if_splits sum.splits option.splits)
  from Suc.prems(5) have c: "choice (rnd (2 * i + 2)) (all_names s) = Inr santa" by simp
  from Suc.IH[OF wf_step[OF Suc.prems(1) s] fresh_step[OF Suc.prems(2) s]
      avail_step[OF Suc.prems(2,3) s] a c Suc.prems(6)]
  have "while_loop (\<lambda>j. rnd (j + 2)) st' = Inr None" .
  with ne s show ?case by (simp add: while_loop.simps[of rnd st])
qed

lemma loop_Some_final:
  assumes "while_loop rnd st = Inr (Some m)"
  shows "\<exists>i s. state_after i rnd st = Some s \<and> all_names s = [] \<and> assignments s = m"
  using assms
proof (induction rnd st rule: while_loop.induct)
  case (1 rnd st)
  show ?case
  proof (cases "all_names st = []")
    case True
    with "1.prems" have "state_after 0 rnd st = Some st \<and> all_names st = [] \<and>
        assignments st = m"
      by (simp add: while_loop.simps[of rnd st])
    then show ?thesis by blast
  next
    case False
    with "1.prems" obtain st' where s: "step (rnd 0) (rnd 1) st = Inr (Some st')"
      and w: "while_loop (\<lambda>i. rnd (i + 2)) st' = Inr (Some m)"
      by (auto simp: while_loop.simps[of rnd st] split: sum.splits option.splits)
    from "1.IH"[OF False s refl w] obtain i s' where
      a: "state_after i (\<lambda>i. rnd (i + 2)) st' = Some s'"
      and b: "all_names s' = []" "assignments s' = m" by blast
    from a False s have "state_after (Suc i) rnd st = Some s'" by simp
    with b show ?thesis by blast
  qed
qed

lemma state_after_added:
  assumes "fresh st0" and "state_after i rnd st0 = Some st"
  shows "\<exists>added. assignments st = assignments st0 @ added \<and> length added = i"
  using assms
proof (induction i arbitrary: rnd st0)
  case 0
  then show ?case by simp
next
  case (Suc i)
  from Suc.prems(2) obtain st' where
    s: "step (rnd 0) (rnd 1) st0 = Inr (Some st')"
    and a: "state_after i (\<lambda>j. rnd (j + 2)) st' = Some st"
    by (auto split: if_splits sum.splits option.splits)
  from step_fresh[OF Suc.prems(1) s] obtain santa giftee where
    e: "assignments st' = assignments st0 @ [(santa, giftee)]" by blast
  from Suc.IH[OF fresh_step[OF Suc.prems(1) s] a] obtain added where
    "assignments st = assignments st' @ added" "length added = i" by blast
  with e have "assignments st = assignments st0 @ ((santa, giftee) # added) \<and>
      length ((santa, giftee) # added) = Suc i" by simp
  then show ?case by blast
qed

subsection \<open>The engine on the store: frame\<close>

lemma same_below_refl: "same_below n0 h h"
  by (simp add: same_below_def)

lemma same_below_trans: "same_below n0 h h1 \<Longrightarrow> same_below n0 h1 h2 \<Longrightarrow> same_below n0 h h2"
  by (simp add: same_below_def)

lemma same_below_store:
  assumes "n0 \<le> a" and "\<And>idx. ob \<noteq> Index idx"
  shows "same_below n0 h (store h a ob)"
proof -
  have "h ! b = Index idx" if "b < length h" "h[a := ob] ! b = Index idx" for b idx
    using that assms(2)[of idx] by (cases "b = a") auto
  moreover have "h[a := ob] ! b = h ! b" if "b < n0" for b
    using that assms(1) by simp
  ultimately show ?thesis
    by (auto simp: same_below_def store_def load_def split: if_splits)
qed

lemma frame_remove_from_lists:
  assumes "remove_from_lists g rs h = (h', out)" and "\<And>r. r \<in> set rs \<Longrightarrow> n0 \<le> r"
  shows "same_below n0 h h'"
  using assms
proof (induction g rs h rule: remove_from_lists.induct)
  case (1 giftee h)
  then show ?case by (simp add: same_below_refl)
next
  case (2 giftee r rs h)
  show ?case
  proof (cases "\<exists>recipients. load h r = Some (Names recipients)")
    case True
    then obtain recipients where l: "load h r = Some (Names recipients)" ..
    let ?h = "if giftee \<in> set recipients
              then store h r (Names (remove1 giftee recipients)) else h"
    from "2.prems"(1) l have "remove_from_lists giftee rs ?h = (h', out)" by simp
    from "2.IH"[OF l refl this] "2.prems"(2) have a: "same_below n0 ?h h'" by simp
    from "2.prems"(2)[of r] have "same_below n0 h ?h"
      by (simp add: same_below_refl same_below_store)
    with a show ?thesis by (rule same_below_trans[rotated])
  next
    case False
    with "2.prems"(1) have "h' = h" by (auto split: option.splits obj.splits)
    then show ?thesis by (simp add: same_below_refl)
  qed
qed

lemma frame_heap_step:
  assumes "heap_step r1 r2 fr h = (h', out)"
    and "n0 \<le> names_ref fr" and "n0 \<le> result_ref fr" and "index_refs_fresh n0 fr h"
  shows "same_below n0 h h'"
proof (cases "h' = h")
  case True
  then show ?thesis by (simp add: same_below_refl)
next
  case False
  with assms(1) obtain names result and idx :: "(name \<times> ref) list" and santa giftee out' where
    i: "load h (index_ref fr) = Some (Index idx)"
    and r: "remove_from_lists giftee (dict_values idx)
          (store (store h (result_ref fr) (Assignment (dict_set santa giftee result)))
             (names_ref fr) (Names (remove1 santa names))) = (h', out') \<or>
        h' = store h (result_ref fr) (Assignment (dict_set santa giftee result))"
    by (auto simp: heap_step_def Let_def list_remove_def
        split: option.splits obj.splits sum.splits if_splits prod.splits) blast+
  let ?h1 = "store h (result_ref fr) (Assignment (dict_set santa giftee result))"
  let ?h2 = "store ?h1 (names_ref fr) (Names (remove1 santa names))"
  have a: "same_below n0 h ?h1" using assms(3) by (simp add: same_below_store)
  have b: "same_below n0 ?h1 ?h2" using assms(2) by (simp add: same_below_store)
  from r show ?thesis
  proof
    assume "remove_from_lists giftee (dict_values idx) ?h2 = (h', out')"
    from frame_remove_from_lists[OF this, of n0] assms(4) i
    have "same_below n0 ?h2 h'" by (auto simp: index_refs_fresh_def)
    with a b show ?thesis by (blast intro: same_below_trans)
  next
    assume "h' = ?h1"
    with a show ?thesis by simp
  qed
qed

lemma index_refs_fresh_mono:
  "index_refs_fresh n0 fr h \<Longrightarrow> same_below n0 h h' \<Longrightarrow> index_refs_fresh n0 fr h'"
  unfolding index_refs_fresh_def same_below_def by blast

lemma frame_heap_loop:
  assumes "heap_loop rnd fr h = (h', out)"
    and "n0 \<le> names_ref fr" and "n0 \<le> result_ref fr" and "index_refs_fresh n0 fr h"
  shows "same_below n0 h h'"
  using assms
proof (induction rnd fr h rule: heap_loop.induct)
  case (1 rnd fr h)
  show ?case
  proof (cases "unresolved fr h = 0")
    case True
    with "1.prems"(1) have "h' = h"
      by (auto simp: heap_loop.simps[of rnd fr h] split: option.splits obj.splits)
    then show ?thesis by (simp add: same_below_refl)
  next
    case False
    obtain h1 o1 where s: "heap_step (rnd 0) (rnd 1) fr h = (h1, o1)" by force
    from frame_heap_step[OF s "1.prems"(2,3,4)] have a: "same_below n0 h h1" .
    show ?thesis
    proof (cases "o1 = Inr True")
      case True
      with "1.prems"(1) False s have l: "heap_loop (\<lambda>i. rnd (i + 2)) fr h1 = (h', out)"
        by (simp add: heap_loop.simps[of rnd fr h])
      from "1.IH"[OF False s[symmetric] _ _ l "1.prems"(2,3) index_refs_fresh_mono[OF "1.prems"(4) a]]
        True
      have "same_below n0 h1 h'" by simp
      with a show ?thesis by (rule same_below_trans)
    next
      case False
      with "1.prems"(1) \<open>unresolved fr h \<noteq> 0\<close> s have "h' = h1"
        by (auto simp: heap_loop.simps[of rnd fr h] split: sum.splits bool.splits)
      with a show ?thesis by simp
    qed
  qed
qed

subsection \<open>The engine on the store: simulation\<close>

lemma index_rel_mono:
  assumes "index_rel h idx valid" and "\<And>r. r \<in> set (dict_values idx) \<Longrightarrow> load h' r = load h r"
  shows "index_rel h' idx valid"
proof -
  have "list_all2 (\<lambda>nr nc. fst nr = fst nc \<and> load h' (snd nr) = Some (Names (snd nc))) idx valid"
    using assms(1)[unfolded index_rel_def]
  proof (rule list.rel_mono_strong)
    fix nr nc
    assume "nr \<in> set idx"
      and "fst nr = fst nc \<and> load h (snd nr) = Some (Names (snd nc))"
    moreover from \<open>nr \<in> set idx\<close> have "snd nr \<in> set (dict_values idx)"
      by (simp add: dict_values_def)
    ultimately show "fst nr = fst nc \<and> load h' (snd nr) = Some (Names (snd nc))"
      using assms(2)[of "snd nr"] by simp
  qed
  then show ?thesis by (simp add: index_rel_def)
qed

lemma index_rel_get:
  "index_rel h idx valid \<Longrightarrow> dict_get valid k = Inr c \<Longrightarrow>
   \<exists>r. dict_get idx k = Inr r \<and> load h r = Some (Names c)"
  unfolding index_rel_def
  by (induction idx valid rule: list_all2_induct) (auto split: if_splits)

lemma index_rel_get_error:
  "index_rel h idx valid \<Longrightarrow> dict_get valid k = Inl e \<Longrightarrow> dict_get idx k = Inl e"
  unfolding index_rel_def
  by (induction idx valid rule: list_all2_induct) (auto split: if_splits)

lemma load_store_same: "a < length h \<Longrightarrow> load (store h a ob) a = Some ob"
  by (simp add: load_def store_def)

lemma load_store_other: "b \<noteq> a \<Longrightarrow> load (store h a ob) b = load h b"
  by (simp add: load_def store_def)

lemma loadD: "load h a = Some ob \<Longrightarrow> a < length h"
  by (simp add: load_def split: if_splits)

lemma remove_from_lists_sim:
  assumes "index_rel h idx valid" and "distinct (dict_values idx)"
  shows "\<exists>h'. remove_from_lists g (dict_values idx) h = (h', Inr ()) \<and>
           index_rel h' idx (remove_giftee g valid) \<and>
           (\<forall>a. a \<notin> set (dict_values idx) \<longrightarrow> load h' a = load h a)"
  using assms
proof (induction idx arbitrary: valid h)
  case Nil
  then show ?case by (simp add: index_rel_def dict_values_def remove_giftee_def)
next
  case (Cons nr idx)
  from Cons.prems(1) obtain nc valid' where v: "valid = nc # valid'"
    and n: "fst nr = fst nc" and l: "load h (snd nr) = Some (Names (snd nc))"
    and rest: "index_rel h idx valid'"
    by (auto simp: index_rel_def list_all2_Cons1)
  let ?c = "if g \<in> set (snd nc) then remove1 g (snd nc) else snd nc"
  let ?h = "if g \<in> set (snd nc) then store h (snd nr) (Names (remove1 g (snd nc))) else h"
  from Cons.prems(2) have d: "snd nr \<notin> set (dict_values idx)" "distinct (dict_values idx)"
    by (simp_all add: dict_values_def)
  have other: "load ?h a = load h a" if "a \<noteq> snd nr" for a
    using that by (simp add: load_store_other)
  have here: "load ?h (snd nr) = Some (Names ?c)"
    using l loadD[OF l] by (simp add: load_store_same)
  have "index_rel ?h idx valid'"
    using rest
  proof (rule index_rel_mono)
    fix r assume "r \<in> set (dict_values idx)"
    with d(1) have "r \<noteq> snd nr" by auto
    then show "load ?h r = load h r" by (rule other)
  qed
  from Cons.IH[OF this d(2)] obtain h' where
    r: "remove_from_lists g (dict_values idx) ?h = (h', Inr ())"
    and i: "index_rel h' idx (remove_giftee g valid')"
    and o: "\<forall>a. a \<notin> set (dict_values idx) \<longrightarrow> load h' a = load ?h a"
    by blast
  from l r have "remove_from_lists g (dict_values (nr # idx)) h = (h', Inr ())"
    by (simp add: dict_values_def)
  moreover from o d(1) here have "load h' (snd nr) = Some (Names ?c)" by simp
  with i n have "index_rel h' (nr # idx) (remove_giftee g valid)"
    unfolding v by (cases nc) (simp add: index_rel_def remove_giftee_def)
  moreover have "\<forall>a. a \<notin> set (dict_values (nr # idx)) \<longrightarrow> load h' a = load h a"
    using o other by (simp add: dict_values_def)
  ultimately show ?case by blast
qed

lemma heap_step_sim:
  assumes "represents fr h st"
  shows "case step r1 r2 st of
           Inl e \<Rightarrow> (\<exists>h'. heap_step r1 r2 fr h = (h', Inl e))
         | Inr None \<Rightarrow> heap_step r1 r2 fr h = (h, Inr False)
         | Inr (Some st') \<Rightarrow>
             (\<exists>h'. heap_step r1 r2 fr h = (h', Inr True) \<and> represents fr h' st')"
proof -
  from assms obtain idx where
    ln: "load h (names_ref fr) = Some (Names (all_names st))"
    and lr: "load h (result_ref fr) = Some (Assignment (assignments st))"
    and li: "load h (index_ref fr) = Some (Index idx)"
    and rel: "index_rel h idx (valid_assignments st)"
    and dist: "distinct (names_ref fr # result_ref fr # index_ref fr # dict_values idx)"
    by (auto simp: represents_def)
  show ?thesis
  proof (cases "choice r1 (all_names st)")
    case (Inl e)
    with ln lr li show ?thesis by (simp add: step_def heap_step_def)
  next
    case santa: (Inr santa)
    show ?thesis
    proof (cases "dict_get (valid_assignments st) santa")
      case (Inl e)
      from index_rel_get_error[OF rel Inl] santa Inl ln lr li show ?thesis
        by (simp add: step_def heap_step_def)
    next
      case cands: (Inr cands)
      from index_rel_get[OF rel cands] obtain list_ref where
        g: "dict_get idx santa = Inr list_ref" and ll: "load h list_ref = Some (Names cands)"
        by blast
      let ?poss = "[recipient \<leftarrow> cands. recipient \<notin> set (dict_values (assignments st))]"
      show ?thesis
      proof (cases "?poss = []")
        case True
        with santa cands g ll ln lr li show ?thesis
          by (simp add: step_def heap_step_def)
      next
        case nonempty: False
        show ?thesis
        proof (cases "choice r2 ?poss")
          case (Inl e)
          with nonempty santa cands g ll ln lr li show ?thesis
            by (simp add: step_def heap_step_def)
        next
          case giftee: (Inr giftee)
          let ?h1 = "store h (result_ref fr)
                       (Assignment (dict_set santa giftee (assignments st)))"
          show ?thesis
          proof (cases "list_remove santa (all_names st)")
            case (Inl e)
            with giftee nonempty santa cands g ll ln lr li show ?thesis
              by (simp add: step_def heap_step_def)
          next
            case names': (Inr names')
            let ?h2 = "store ?h1 (names_ref fr) (Names names')"
            let ?st' = "\<lparr> all_names = names',
                          assignments = dict_set santa giftee (assignments st),
                          valid_assignments = remove_giftee giftee (valid_assignments st) \<rparr>"
            have pure: "step r1 r2 st = Inr (Some ?st')"
              using giftee nonempty santa cands names' by (simp add: step_def)
            have "index_rel ?h2 idx (valid_assignments st)"
              using rel
            proof (rule index_rel_mono)
              fix r assume "r \<in> set (dict_values idx)"
              with dist have "r \<noteq> names_ref fr" "r \<noteq> result_ref fr" by auto
              then show "load ?h2 r = load h r" by (simp add: load_store_other)
            qed
            from remove_from_lists_sim[OF this, of giftee] dist obtain h' where
              r: "remove_from_lists giftee (dict_values idx) ?h2 = (h', Inr ())"
              and i: "index_rel h' idx (remove_giftee giftee (valid_assignments st))"
              and o: "\<forall>a. a \<notin> set (dict_values idx) \<longrightarrow> load h' a = load ?h2 a"
              by auto
            have heap: "heap_step r1 r2 fr h = (h', Inr True)"
              using giftee nonempty santa cands names' g ll ln lr li r
              by (simp add: heap_step_def)
            from dist o have "load h' (names_ref fr) = load ?h2 (names_ref fr)"
              "load h' (result_ref fr) = load ?h2 (result_ref fr)"
              "load h' (index_ref fr) = load ?h2 (index_ref fr)"
              by auto
            moreover have "load ?h2 (names_ref fr) = Some (Names names')"
              using loadD[OF ln] by (simp add: load_def store_def)
            moreover have "load ?h2 (result_ref fr) =
                Some (Assignment (dict_set santa giftee (assignments st)))"
              using loadD[OF lr] dist by (simp add: load_def store_def)
            moreover have "load ?h2 (index_ref fr) = Some (Index idx)"
              using li dist by (simp add: load_store_other)
            ultimately have "represents fr h' ?st'"
              using i dist by (auto simp: represents_def)
            with pure heap show ?thesis by simp
          qed
        qed
      qed
    qed
  qed
qed

lemma heap_loop_sim:
  assumes "represents fr h st"
  shows "heap_result (heap_loop rnd fr h) = while_loop rnd st"
  using assms
proof (induction rnd st arbitrary: h rule: while_loop.induct)
  case (1 rnd st)
  from "1.prems" have ln: "load h (names_ref fr) = Some (Names (all_names st))"
    and lr: "load h (result_ref fr) = Some (Assignment (assignments st))"
    by (auto simp: represents_def)
  from ln have u: "unresolved fr h = length (all_names st)" by (simp add: unresolved_def)
  show ?case
  proof (cases "all_names st = []")
    case True
    with u ln lr show ?thesis
      by (simp add: heap_loop.simps[of rnd fr h] while_loop.simps[of rnd st] heap_result_def)
  next
    case False
    with u have ne: "unresolved fr h \<noteq> 0" by simp
    note sim = heap_step_sim[OF "1.prems", of "rnd 0" "rnd 1"]
    show ?thesis
    proof (cases "step (rnd 0) (rnd 1) st")
      case (Inl e)
      with sim obtain h' where "heap_step (rnd 0) (rnd 1) fr h = (h', Inl e)" by auto
      with Inl False ne show ?thesis
        by (simp add: heap_loop.simps[of rnd fr h] while_loop.simps[of rnd st] heap_result_def)
    next
      case (Inr r)
      show ?thesis
      proof (cases r)
        case None
        with sim Inr have "heap_step (rnd 0) (rnd 1) fr h = (h, Inr False)" by simp
        with None Inr False ne show ?thesis
          by (simp add: heap_loop.simps[of rnd fr h] while_loop.simps[of rnd st]
              heap_result_def)
      next
        case (Some st')
        with sim Inr obtain h' where s: "heap_step (rnd 0) (rnd 1) fr h = (h', Inr True)"
          and rep: "represents fr h' st'" by auto
        from Inr Some have p: "step (rnd 0) (rnd 1) st = Inr (Some st')" by simp
        from "1.IH"[OF False p refl rep] s p False ne show ?thesis
          by (simp add: heap_loop.simps[of rnd fr h] while_loop.simps[of rnd st])
      qed
    qed
  qed
qed

lemma alloc_index_sim:
  assumes "build_valid_assignments ps names0 names = Inr valid"
  shows "\<exists>h' idx. alloc_index ps names0 names h = (h', Inr idx) \<and>
           index_rel h' idx valid \<and> distinct (dict_values idx) \<and>
           (\<forall>r \<in> set (dict_values idx). length h \<le> r \<and> r < length h') \<and>
           length h \<le> length h' \<and> (\<forall>a < length h. h' ! a = h ! a)"
  using assms
proof (induction names arbitrary: h valid)
  case Nil
  then show ?case by (auto simp: index_rel_def dict_values_def)
next
  case (Cons name names)
  from Cons.prems obtain partner valid' where
    p: "dict_get ps name = Inr partner"
    and b: "build_valid_assignments ps names0 names = Inr valid'"
    and v: "valid = (name, [n \<leftarrow> names0. n \<noteq> name \<and> Some n \<noteq> partner]) # valid'"
    by (auto split: sum.splits)
  let ?c = "[n \<leftarrow> names0. n \<noteq> name \<and> Some n \<noteq> partner]"
  let ?h1 = "h @ [Names ?c]"
  from Cons.IH[OF b, of ?h1] obtain h' idx where
    a: "alloc_index ps names0 names ?h1 = (h', Inr idx)"
    and r: "index_rel h' idx valid'" and d: "distinct (dict_values idx)"
    and bd: "\<forall>r \<in> set (dict_values idx). length ?h1 \<le> r \<and> r < length h'"
    and len: "length ?h1 \<le> length h'" and same: "\<forall>a < length ?h1. h' ! a = ?h1 ! a"
    by blast
  have run: "alloc_index ps names0 (name # names) h = (h', Inr ((name, length h) # idx))"
    using p a by (simp add: alloc_def)
  from same have "h' ! length h = Names ?c" by simp
  with len have here: "load h' (length h) = Some (Names ?c)" by (simp add: load_def)
  with r have "index_rel h' ((name, length h) # idx) valid"
    by (simp add: index_rel_def v)
  moreover from bd d have "distinct (dict_values ((name, length h) # idx))"
    by (auto simp: dict_values_def)
  moreover from bd len have
    "\<forall>r \<in> set (dict_values ((name, length h) # idx)). length h \<le> r \<and> r < length h'"
    by (auto simp: dict_values_def)
  moreover from same have "\<forall>a < length h. h' ! a = h ! a"
    by (auto simp: nth_append)
  moreover from len have "length h \<le> length h'" by simp
  ultimately show ?case using run by blast
qed

lemma heap_loop_result_ref:
  "heap_loop rnd fr h = (h', Inr (Some a)) \<Longrightarrow> a = result_ref fr"
proof (induction rnd fr h rule: heap_loop.induct)
  case (1 rnd fr h)
  show ?case
  proof (cases "unresolved fr h = 0")
    case True
    with "1.prems" show ?thesis
      by (auto simp: heap_loop.simps[of rnd fr h] split: option.splits obj.splits)
  next
    case False
    obtain h1 o1 where s: "heap_step (rnd 0) (rnd 1) fr h = (h1, o1)" by force
    with "1.prems" False have "o1 = Inr True"
      and l: "heap_loop (\<lambda>i. rnd (i + 2)) fr h1 = (h', Inr (Some a))"
      by (auto simp: heap_loop.simps[of rnd fr h] split: sum.splits bool.splits)
    from "1.IH"[OF False s[symmetric] this(1) refl l] show ?thesis by simp
  qed
qed

lemmas heap_run_simps = assign_secret_santa_heap_def load_def alloc_def store_def
  dict_keys_def dict_values_def heap_loop.simps heap_step_def unresolved_def choice_def
  list_remove_def Let_def

subsection \<open>The driving loop\<close>

lemma retry_returns_nonempty:
  assumes "retry_until_truthy ps pre rnds k = Some y"
  shows "ps \<noteq> [] \<or> pre \<noteq> []"
proof (rule retry_until_truthy.raw_induct[where P = "\<lambda>ps pre rnds k y. ps \<noteq> [] \<or> pre \<noteq> []",
      OF _ assms])
  fix f :: "participants \<Rightarrow> assignment \<Rightarrow> (nat \<Rightarrow> nat \<Rightarrow> nat) \<Rightarrow> nat
      \<Rightarrow> (py_error + assignment option) option"
    and ps pre rnds k y
  assume IH: "\<And>ps pre rnds k y. f ps pre rnds k = Some y \<Longrightarrow> ps \<noteq> [] \<or> pre \<noteq> []"
    and body: "(case assign_secret_santa ps pre (rnds k) of
        Inl e \<Rightarrow> Some (Inl e)
      | Inr assignment \<Rightarrow>
          if \<not> truthy assignment then f ps pre rnds (Suc k)
          else Some (Inr assignment)) = Some y"
  show "ps \<noteq> [] \<or> pre \<noteq> []"
  proof (rule ccontr)
    assume "\<not> (ps \<noteq> [] \<or> pre \<noteq> [])"
    then have e: "ps = []" "pre = []" by simp_all
    have "assign_secret_santa [] [] (rnds k) = Inr (Some [])"
      by (simp add: run_simps)
    with body e have "f [] [] rnds (Suc k) = Some y" by simp
    from IH[OF this] show False by simp
  qed
qed

section \<open>The claims\<close>

text \<open>
  In the theorems below a participants mapping is any item list (for a dict, one with
  pairwise different keys), a sequence of random choices is any \<open>rnd\<close>, a non-null
  result is \<open>Inr (Some result)\<close> and the null result is \<open>Inr None\<close>.
\<close>

text \<open>
  C1.  Whenever \<open>assign_secret_santa\<close> returns a non-null mapping, every participant
  \<open>G\<close> that is not a key of \<open>pre_assigned\<close> is a key of the result, and
  \<open>result[G]\<close> is neither \<open>G\<close> nor \<open>participants[G]\<close>, the declared partner
  of \<open>G\<close>.
\<close>

theorem assigned_giver_avoids_self_and_partner:
  assumes "assign_secret_santa participants pre_assigned rnd = Inr (Some result)"
    and "G \<in> set (dict_keys participants)"
    and "G \<notin> set (dict_keys pre_assigned)"
  shows "\<exists>r partner. dict_get result G = Inr r \<and> dict_get participants G = Inr partner \<and>
           r \<noteq> G \<and> Some r \<noteq> partner"
proof -
  from assign_final_state[OF assms(1)] obtain fin where
    fin: "search_inv participants pre_assigned fin" "all_names fin = []" "assignments fin = result"
    by blast
  from fin assms(2,3) have "G \<in> set (dict_keys result)"
    by (auto simp: search_inv_def)
  then obtain r where r: "dict_get result G = Inr r"
    using dict_get_key by fastforce
  with fin(1,3) assms(3) have c: "r \<in> candidate_set participants G"
    unfolding search_inv_def by blast
  from assms(2) obtain partner where p: "dict_get participants G = Inr partner"
    using dict_get_key by fastforce
  from c p have "r \<noteq> G" "Some r \<noteq> partner"
    by (auto simp: candidate_set_def)
  with r p show ?thesis by blast
qed

text \<open>The run of four participants in two couples, with every draw 0; the giver is A.\<close>

theorem assigned_giver_avoids_self_and_partner_witness:
  "assign_secret_santa
     [(''A'', Some ''B''), (''B'', Some ''A''), (''C'', Some ''D''), (''D'', Some ''C'')] []
     (\<lambda>_. 0) = Inr (Some [(''A'', ''C''), (''B'', ''D''), (''C'', ''A''), (''D'', ''B'')]) \<and>
   dict_get [(''A'', ''C''), (''B'', ''D''), (''C'', ''A''), (''D'', ''B'')] ''A'' = Inr ''C'' \<and>
   dict_get [(''A'', Some ''B''), (''B'', Some ''A''), (''C'', Some ''D''), (''D'', Some ''C'')]
     ''A'' = Inr (Some ''B'') \<and> ''C'' \<noteq> ''A'' \<and> Some ''C'' \<noteq> Some ''B''"
proof -
  have run: "assign_secret_santa
     [(''A'', Some ''B''), (''B'', Some ''A''), (''C'', Some ''D''), (''D'', Some ''C'')] []
     (\<lambda>_. 0) = Inr (Some [(''A'', ''C''), (''B'', ''D''), (''C'', ''A''), (''D'', ''B'')])"
    by (simp add: run_simps)
  from assigned_giver_avoids_self_and_partner[OF run, of "''A''"] run
  show ?thesis by (simp add: dict_keys_def)
qed

text \<open>
  C2.  When the keys and the values of \<open>pre_assigned\<close> are participants and its
  values are pairwise different (and both inputs are dicts: their keys are pairwise
  different), a non-null result is a bijection on the participant set: its keys are
  exactly the participants, and every participant occurs among its values exactly once.
\<close>

theorem result_is_bijection_on_participants:
  assumes "assign_secret_santa participants pre_assigned rnd = Inr (Some result)"
    and "distinct (dict_keys participants)" and "distinct (dict_keys pre_assigned)"
    and "set (dict_keys pre_assigned) \<subseteq> set (dict_keys participants)"
    and "set (dict_values pre_assigned) \<subseteq> set (dict_keys participants)"
    and "distinct (dict_values pre_assigned)"
  shows "set (dict_keys result) = set (dict_keys participants) \<and>
         distinct (dict_keys result) \<and>
         set (dict_values result) = set (dict_keys participants) \<and>
         distinct (dict_values result) \<and>
         (\<forall>p \<in> set (dict_keys participants). count_list (dict_values result) p = 1)"
proof -
  from assign_bijection[OF assms] have b:
    "set (dict_keys result) = set (dict_keys participants)" "distinct (dict_keys result)"
    "set (dict_values result) = set (dict_keys participants)" "distinct (dict_values result)"
    by simp_all
  from b(3,4) have "\<forall>p \<in> set (dict_keys participants). count_list (dict_values result) p = 1"
    by (simp add: count_list_distinct)
  with b show ?thesis by simp
qed

text \<open>The run of Alice and Bob without partners and without pre-assignments.\<close>

theorem result_is_bijection_on_participants_witness:
  "assign_secret_santa [(''Alice'', None), (''Bob'', None)] [] (\<lambda>_. 0) =
     Inr (Some [(''Alice'', ''Bob''), (''Bob'', ''Alice'')]) \<and>
   set (dict_keys [(''Alice'', ''Bob''), (''Bob'', ''Alice'')]) = {''Alice'', ''Bob''} \<and>
   set (dict_values [(''Alice'', ''Bob''), (''Bob'', ''Alice'')]) = {''Alice'', ''Bob''} \<and>
   count_list (dict_values [(''Alice'', ''Bob''), (''Bob'', ''Alice'')]) ''Alice'' = 1 \<and>
   count_list (dict_values [(''Alice'', ''Bob''), (''Bob'', ''Alice'')]) ''Bob'' = 1"
proof -
  have run: "assign_secret_santa [(''Alice'', None), (''Bob'', None)] [] (\<lambda>_. 0) =
     Inr (Some [(''Alice'', ''Bob''), (''Bob'', ''Alice'')])"
    by (simp add: run_simps)
  from result_is_bijection_on_participants[OF run] run
  show ?thesis by (simp add: dict_keys_def dict_values_def insert_commute)
qed

text \<open>
  C3.  Whenever \<open>assign_secret_santa\<close> returns a non-null mapping, every key \<open>G\<close> of
  \<open>pre_assigned\<close> is mapped by the result to exactly \<open>pre_assigned[G]\<close>.
\<close>

theorem pre_assigned_entries_preserved:
  assumes "assign_secret_santa participants pre_assigned rnd = Inr (Some result)"
    and "G \<in> set (dict_keys pre_assigned)"
  shows "\<exists>r. dict_get pre_assigned G = Inr r \<and> dict_get result G = Inr r"
proof -
  from assign_final_state[OF assms(1)] obtain fin where
    fin: "search_inv participants pre_assigned fin" "assignments fin = result"
    by blast
  from assms(2) obtain r where "dict_get pre_assigned G = Inr r"
    using dict_get_key by fastforce
  with fin assms(2) show ?thesis by (simp add: search_inv_def)
qed

text \<open>The run of A, B, C with A pre-assigned to B and every draw 1.\<close>

theorem pre_assigned_entries_preserved_witness:
  "assign_secret_santa [(''A'', None), (''B'', None), (''C'', None)] [(''A'', ''B'')] (\<lambda>_. 1) =
     Inr (Some [(''A'', ''B''), (''C'', ''A''), (''B'', ''C'')]) \<and>
   dict_get [(''A'', ''B'')] ''A'' = Inr ''B'' \<and>
   dict_get [(''A'', ''B''), (''C'', ''A''), (''B'', ''C'')] ''A'' = Inr ''B''"
proof -
  have run: "assign_secret_santa [(''A'', None), (''B'', None), (''C'', None)]
     [(''A'', ''B'')] (\<lambda>_. 1) = Inr (Some [(''A'', ''B''), (''C'', ''A''), (''B'', ''C'')])"
    by (simp add: run_simps)
  from pre_assigned_entries_preserved[OF run, of "''A''"] run
  show ?thesis by (simp add: dict_keys_def)
qed

text \<open>
  C4.  For a participants dict, the attempt starts in the state \<open>st0\<close> whose result
  mapping is \<open>pre_assigned\<close> itself and whose unresolved givers are the participants
  that are not keys of \<open>pre_assigned\<close>; after \<open>i\<close> completed iterations the result
  mapping is \<open>pre_assigned\<close> followed by the \<open>i\<close> entries \<open>added\<close> by the loop.
  \<open>assign_secret_santa\<close> returns null exactly when at some iteration \<open>i\<close> the loop is
  entered in a state whose randomly selected unresolved giver has no available candidate:
  its candidate set minus the receivers of \<open>pre_assigned\<close> and of the entries added so
  far is empty.  Otherwise the attempt reaches a state without unresolved givers and
  returns the result mapping of that state, \<open>pre_assigned\<close> followed by the added
  entries.
\<close>

theorem null_iff_selected_giver_has_no_candidate:
  assumes "distinct (dict_keys participants)"
  shows "\<exists>st0.
     initial_state participants pre_assigned = Inr st0 \<and>
     assignments st0 = pre_assigned \<and>
     all_names st0 =
       [name \<leftarrow> dict_keys participants. name \<notin> set (dict_keys pre_assigned)] \<and>
     (\<forall>i st. state_after i rnd st0 = Some st \<longrightarrow>
        (\<exists>added. assignments st = pre_assigned @ added \<and> length added = i)) \<and>
     (assign_secret_santa participants pre_assigned rnd = Inr None \<longleftrightarrow>
        (\<exists>i st santa added.
           state_after i rnd st0 = Some st \<and>
           choice (rnd (2 * i)) (all_names st) = Inr santa \<and>
           assignments st = pre_assigned @ added \<and>
           available participants (pre_assigned @ added) santa = {})) \<and>
     (assign_secret_santa participants pre_assigned rnd \<noteq> Inr None \<longrightarrow>
        (\<exists>i st added.
           state_after i rnd st0 = Some st \<and> all_names st = [] \<and>
           assignments st = pre_assigned @ added \<and>
           assign_secret_santa participants pre_assigned rnd
             = Inr (Some (pre_assigned @ added))))"
proof -
  from search_initial[OF assms, of pre_assigned] obtain st0 where
    i: "initial_state participants pre_assigned = Inr st0"
    and k: "well_formed participants st0" "fresh st0" "avail_inv participants st0"
    by blast
  from wf_initial[of participants pre_assigned] i have
    n: "all_names st0 =
      [name \<leftarrow> dict_keys participants. name \<notin> set (dict_keys pre_assigned)]"
    and a0: "assignments st0 = pre_assigned"
    by auto
  have eq: "assign_secret_santa participants pre_assigned rnd = while_loop rnd st0"
    using i by (simp add: assign_secret_santa_def)
  have added: "\<exists>added. assignments st = pre_assigned @ added \<and> length added = j"
    if "state_after j rnd st0 = Some st" for j st
    using state_after_added[OF k(2) that] a0 by simp
  have fwd: "\<exists>i st santa added.
           state_after i rnd st0 = Some st \<and>
           choice (rnd (2 * i)) (all_names st) = Inr santa \<and>
           assignments st = pre_assigned @ added \<and>
           available participants (pre_assigned @ added) santa = {}"
    if "assign_secret_santa participants pre_assigned rnd = Inr None"
  proof -
    from loop_None_stuck[OF k, of rnd] that eq obtain j st santa where
      s: "state_after j rnd st0 = Some st"
      "choice (rnd (2 * j)) (all_names st) = Inr santa"
      "available participants (assignments st) santa = {}"
      by auto
    from added[OF s(1)] obtain ad where "assignments st = pre_assigned @ ad" by blast
    with s show ?thesis by auto
  qed
  have bwd: "assign_secret_santa participants pre_assigned rnd = Inr None"
    if "\<exists>i st santa added.
           state_after i rnd st0 = Some st \<and>
           choice (rnd (2 * i)) (all_names st) = Inr santa \<and>
           assignments st = pre_assigned @ added \<and>
           available participants (pre_assigned @ added) santa = {}"
  proof -
    from that obtain j st santa where
      "state_after j rnd st0 = Some st" "choice (rnd (2 * j)) (all_names st) = Inr santa"
      "available participants (assignments st) santa = {}"
      by auto
    from stuck_loop_None[OF k this] eq show ?thesis by simp
  qed
  have fin: "\<exists>i st added.
           state_after i rnd st0 = Some st \<and> all_names st = [] \<and>
           assignments st = pre_assigned @ added \<and>
           assign_secret_santa participants pre_assigned rnd
             = Inr (Some (pre_assigned @ added))"
    if "assign_secret_santa participants pre_assigned rnd \<noteq> Inr None"
  proof -
    from while_loop_returns[OF k(1), of rnd] that eq obtain m where
      m: "while_loop rnd st0 = Inr (Some m)" by (cases "while_loop rnd st0") auto
    from loop_Some_final[OF m] obtain j st where
      s: "state_after j rnd st0 = Some st" "all_names st = []" "assignments st = m"
      by blast
    from added[OF s(1)] obtain ad where "assignments st = pre_assigned @ ad" by blast
    with s eq m show ?thesis by auto
  qed
  from i a0 n added fwd bwd fin show ?thesis by blast
qed

text \<open>
  Three singles A, B, C with A \<rightarrow> B pre-assigned, every draw 0.  The attempt starts
  with the result mapping [(A, B)] and the unresolved givers B, C.  B takes A; then C is
  selected, and its candidates A and B are both used: A by the entry added for B, B by
  the pre-assigned entry.  Without the pre-assigned entry, B would still be available
  to C.
\<close>

theorem null_iff_selected_giver_has_no_candidate_witness:
  "distinct (dict_keys [(''A'', None), (''B'', None), (''C'', None)]) \<and>
   assign_secret_santa [(''A'', None), (''B'', None), (''C'', None)] [(''A'', ''B'')] (\<lambda>_. 0)
     = Inr None \<and>
   (\<exists>st0. initial_state [(''A'', None), (''B'', None), (''C'', None)] [(''A'', ''B'')]
        = Inr st0 \<and>
      assignments st0 = [(''A'', ''B'')] \<and> all_names st0 = [''B'', ''C''] \<and>
      (\<exists>i st santa added.
         state_after i (\<lambda>_. 0) st0 = Some st \<and>
         choice 0 (all_names st) = Inr santa \<and>
         assignments st = [(''A'', ''B'')] @ added \<and>
         available [(''A'', None), (''B'', None), (''C'', None)]
           ([(''A'', ''B'')] @ added) santa = {}) \<and>
      state_after 1 (\<lambda>_. 0) st0 =
        Some \<lparr> all_names = [''C''], assignments = [(''A'', ''B''), (''B'', ''A'')],
               valid_assignments = [(''A'', [''B'', ''C'']), (''B'', [''C'']), (''C'', [''B''])] \<rparr>) \<and>
   available [(''A'', None), (''B'', None), (''C'', None)]
     [(''A'', ''B''), (''B'', ''A'')] ''C'' = {} \<and>
   available [(''A'', None), (''B'', None), (''C'', None)] [(''B'', ''A'')] ''C'' = {''B''}"
proof -
  let ?ps = "[(''A'', None), (''B'', None), (''C'', None)]"
  let ?pre = "[(''A'', ''B'')]"
  have d: "distinct (dict_keys ?ps)" by (simp add: dict_keys_def)
  have run: "assign_secret_santa ?ps ?pre (\<lambda>_. 0) = Inr None"
    by (simp add: run_simps)
  have av: "available ?ps [(''A'', ''B''), (''B'', ''A'')] ''C'' = {}"
    "available ?ps [(''B'', ''A'')] ''C'' = {''B''}"
    by (auto simp: available_def candidate_set_def dict_keys_def dict_values_def)
  from null_iff_selected_giver_has_no_candidate[OF d, of ?pre "\<lambda>_. 0"] show ?thesis
  proof (elim exE conjE)
    fix st0
    assume i: "initial_state ?ps ?pre = Inr st0"
      and a: "assignments st0 = ?pre"
      and n: "all_names st0 = [name \<leftarrow> dict_keys ?ps. name \<notin> set (dict_keys ?pre)]"
      and iff: "(assign_secret_santa ?ps ?pre (\<lambda>_. 0) = Inr None) =
       (\<exists>i st santa added.
         state_after i (\<lambda>_. 0) st0 = Some st \<and>
         choice 0 (all_names st) = Inr santa \<and>
         assignments st = ?pre @ added \<and>
         available ?ps (?pre @ added) santa = {})"
    from iff run have stuck: "\<exists>i st santa added.
         state_after i (\<lambda>_. 0) st0 = Some st \<and>
         choice 0 (all_names st) = Inr santa \<and>
         assignments st = ?pre @ added \<and>
         available ?ps (?pre @ added) santa = {}"
      by (rule iffD1)
    from i have st0: "st0 = \<lparr> all_names = [''B'', ''C''], assignments = [(''A'', ''B'')],
        valid_assignments = [(''A'', [''B'', ''C'']), (''B'', [''A'', ''C'']), (''C'', [''A'', ''B''])] \<rparr>"
      by (simp add: initial_state_def dict_keys_def)
    have one: "state_after 1 (\<lambda>_. 0) st0 =
          Some \<lparr> all_names = [''C''], assignments = [(''A'', ''B''), (''B'', ''A'')],
                 valid_assignments = [(''A'', [''B'', ''C'']), (''B'', [''C'']), (''C'', [''B''])] \<rparr>"
      unfolding st0
      by (simp add: step_def choice_def list_remove_def remove_giftee_def dict_values_def)
    from n have n': "all_names st0 = [''B'', ''C'']" by (simp add: dict_keys_def)
    show ?thesis
      by (intro conjI exI[of _ st0]) (rule d run i a n' stuck one av)+
  qed
qed

text \<open>
  C5.  For every participants mapping, \<open>is_assignment_possible\<close> returns false exactly
  when some participant \<open>P\<close> has an empty candidate set (all participants except \<open>P\<close>
  and except \<open>P\<close>'s declared partner), and true otherwise; it never raises, and nothing
  else about the mapping (such as whether a full bijective assignment exists) enters the
  result.
\<close>

theorem is_assignment_possible_iff:
  "is_assignment_possible participants =
     Inr (\<not> (\<exists>P \<in> set (dict_keys participants). candidate_set participants P = {}))"
  unfolding is_assignment_possible_def by (rule feasible_from_eq) simp

text \<open>
  C6.  The feasibility check is necessary but not sufficient.  For the participants A and
  B, who are each other's partners, and C without a partner, and no pre-assignments,
  \<open>is_assignment_possible\<close> returns true, no mapping is a complete valid assignment
  (A and B both have C as their only candidate), and \<open>assign_secret_santa\<close> returns
  null for every sequence of random choices.
\<close>

theorem feasibility_check_not_sufficient:
  "is_assignment_possible [(''A'', Some ''B''), (''B'', Some ''A''), (''C'', None)] = Inr True \<and>
   (\<forall>m. \<not> valid_assignment [(''A'', Some ''B''), (''B'', Some ''A''), (''C'', None)] m) \<and>
   (\<forall>rnd. assign_secret_santa [(''A'', Some ''B''), (''B'', Some ''A''), (''C'', None)] [] rnd
      = Inr None)"
proof -
  let ?ps = "[(''A'', Some ''B''), (''B'', Some ''A''), (''C'', None)]"
  have a: "is_assignment_possible ?ps = Inr True"
    by (simp add: is_assignment_possible_def dict_keys_def)
  have c: "assign_secret_santa ?ps [] rnd = Inr None" for rnd
  proof -
    from assign_returns[of ?ps "[]" rnd] obtain r where
      r: "assign_secret_santa ?ps [] rnd = Inr r" ..
    show ?thesis
    proof (cases r)
      case None
      with r show ?thesis by simp
    next
      case (Some m)
      with r have "valid_assignment ?ps m"
        by (intro assign_result_valid[of ?ps rnd]) (simp_all add: dict_keys_def)
      with couple_and_single_unsatisfiable show ?thesis by blast
    qed
  qed
  from a couple_and_single_unsatisfiable c show ?thesis by blast
qed

text \<open>One candidate mapping and one sequence of draws of that example.\<close>

theorem feasibility_check_not_sufficient_witness:
  "is_assignment_possible [(''A'', Some ''B''), (''B'', Some ''A''), (''C'', None)] = Inr True \<and>
   \<not> valid_assignment [(''A'', Some ''B''), (''B'', Some ''A''), (''C'', None)]
       [(''A'', ''C''), (''B'', ''C''), (''C'', ''A'')] \<and>
   assign_secret_santa [(''A'', Some ''B''), (''B'', Some ''A''), (''C'', None)] [] (\<lambda>_. 0)
      = Inr None"
  using feasibility_check_not_sufficient by blast

text \<open>
  C7.  For participants A, B, C without partners and \<open>pre_assigned = {A: B}\<close>, every
  non-null result, whatever the random choices, is the dict \<open>{A: B, B: C, C: A}\<close>: it
  has pairwise different keys, the entries of that dict under A, B and C, and no entry
  under any other name.
\<close>

theorem scenario_C_only_completion:
  assumes "assign_secret_santa [(''A'', None), (''B'', None), (''C'', None)] [(''A'', ''B'')] rnd
             = Inr (Some result)"
  shows "distinct (dict_keys result) \<and>
         (\<forall>g. dict_get result g = dict_get [(''A'', ''B''), (''B'', ''C''), (''C'', ''A'')] g)"
proof -
  consider "rnd 0 mod 2 = 0" "rnd (Suc 0) mod 2 = 0" | "rnd 0 mod 2 = 0" "rnd (Suc 0) mod 2 \<noteq> 0"
    | "rnd 0 mod 2 \<noteq> 0" by blast
  then show ?thesis
  proof cases
    case 1
    with assms show ?thesis
      by (simp add: assign_secret_santa_def initial_state_def while_loop.simps step_def
          choice_one choice_two list_remove_def remove_giftee_def dict_keys_def dict_values_def)
  next
    case 2
    with assms have "result = [(''A'', ''B''), (''B'', ''C''), (''C'', ''A'')]"
      by (simp add: assign_secret_santa_def initial_state_def while_loop.simps step_def
          choice_one choice_two list_remove_def remove_giftee_def dict_keys_def dict_values_def)
    then show ?thesis by (simp add: dict_keys_def)
  next
    case 3
    with assms have "result = [(''A'', ''B''), (''C'', ''A''), (''B'', ''C'')]"
      by (simp add: assign_secret_santa_def initial_state_def while_loop.simps step_def
          choice_one choice_two list_remove_def remove_giftee_def dict_keys_def dict_values_def)
    then show ?thesis by (simp add: dict_keys_def)
  qed
qed

text \<open>The run with every draw 1 returns that dict, with C resolved before B.\<close>

theorem scenario_C_only_completion_witness:
  "assign_secret_santa [(''A'', None), (''B'', None), (''C'', None)] [(''A'', ''B'')] (\<lambda>_. 1)
     = Inr (Some [(''A'', ''B''), (''C'', ''A''), (''B'', ''C'')]) \<and>
   distinct (dict_keys [(''A'', ''B''), (''C'', ''A''), (''B'', ''C'')]) \<and>
   dict_get [(''A'', ''B''), (''C'', ''A''), (''B'', ''C'')] ''B''
     = dict_get [(''A'', ''B''), (''B'', ''C''), (''C'', ''A'')] ''B''"
proof -
  have run: "assign_secret_santa [(''A'', None), (''B'', None), (''C'', None)]
     [(''A'', ''B'')] (\<lambda>_. 1) = Inr (Some [(''A'', ''B''), (''C'', ''A''), (''B'', ''C'')])"
    by (simp add: run_simps)
  from scenario_C_only_completion[OF run] run show ?thesis by simp
qed

text \<open>
  C8.  A call of \<open>assign_secret_santa\<close> leaves both of its input mappings unchanged.
  On the store, for every store \<open>h\<close> in which \<open>p\<close> refers to a participants dict and
  \<open>q\<close> to a pre-assignment dict: after the call both references hold the dicts they
  held before, and so does every other object that existed before the call; the returned
  dict is an object created by the call; and the outcome is the one of
  \<open>assign_secret_santa\<close> on the contents of the two inputs, so it depends on nothing
  else in the store: the candidate index is built again from the participants on each
  call.
\<close>

theorem heap_call_leaves_inputs_unchanged:
  assumes "load h p = Some (Participants participants)"
    and "load h q = Some (Assignment pre_assigned)"
  shows "\<exists>h' out. assign_secret_santa_heap h p q rnd = (h', out) \<and>
           load h' p = Some (Participants participants) \<and>
           load h' q = Some (Assignment pre_assigned) \<and>
           length h \<le> length h' \<and> (\<forall>a < length h. h' ! a = h ! a) \<and>
           (\<forall>a. out = Inr (Some a) \<longrightarrow> length h \<le> a) \<and>
           heap_result (h', out) = assign_secret_santa participants pre_assigned rnd"
proof -
  let ?keys = "dict_keys participants"
  let ?unresolved = "[name \<leftarrow> ?keys. name \<notin> set (dict_keys pre_assigned)]"
  let ?h1 = "h @ [Names ?keys]"
  from build_valid_assignments_ok[of ?keys participants] obtain valid where
    b: "build_valid_assignments participants ?keys ?keys = Inr valid" by auto
  from alloc_index_sim[OF b, of ?h1] obtain h2 idx where
    a: "alloc_index participants ?keys ?keys ?h1 = (h2, Inr idx)"
    and r: "index_rel h2 idx valid" and d: "distinct (dict_values idx)"
    and bd: "\<forall>r \<in> set (dict_values idx). length ?h1 \<le> r \<and> r < length h2"
    and len: "length ?h1 \<le> length h2" and same: "\<forall>a < length ?h1. h2 ! a = ?h1 ! a"
    by blast
  let ?h5 = "h2 @ [Index idx, Assignment pre_assigned, Names ?unresolved]"
  let ?fr = "\<lparr> names_ref = Suc (Suc (length h2)), result_ref = Suc (length h2),
               index_ref = length h2 \<rparr>"
  let ?st0 = "\<lparr> all_names = ?unresolved, assignments = pre_assigned,
                valid_assignments = valid \<rparr>"
  obtain h' out where l: "heap_loop rnd ?fr ?h5 = (h', out)" by force
  have run: "assign_secret_santa_heap h p q rnd = (h', out)"
    using assms a l by (simp add: assign_secret_santa_heap_def alloc_def)
  have "index_rel ?h5 idx valid"
    using r
  proof (rule index_rel_mono)
    fix r assume "r \<in> set (dict_values idx)"
    with bd have "r < length h2" by auto
    then show "load ?h5 r = load h2 r" by (simp add: load_def nth_append)
  qed
  moreover from bd have "distinct (names_ref ?fr # result_ref ?fr # index_ref ?fr #
      dict_values idx)"
    using d by auto
  ultimately have rep: "represents ?fr ?h5 ?st0"
    by (simp add: represents_def load_def nth_append)
  have pure: "assign_secret_santa participants pre_assigned rnd = while_loop rnd ?st0"
    using b by (simp add: assign_secret_santa_def initial_state_def)
  from heap_loop_sim[OF rep, of rnd] l pure have res:
    "heap_result (h', out) = assign_secret_santa participants pre_assigned rnd" by simp
  have fresh_refs: "index_refs_fresh (length h) ?fr ?h5"
    using bd by (auto simp: index_refs_fresh_def load_def nth_append)
  from len have "length h \<le> names_ref ?fr" "length h \<le> result_ref ?fr" by simp_all
  from frame_heap_loop[OF l this fresh_refs] have sb: "same_below (length h) ?h5 h'" .
  have old: "h' ! a = h ! a" if "a < length h" for a
  proof -
    from sb that have "h' ! a = ?h5 ! a" by (simp add: same_below_def)
    also from that len have "\<dots> = h2 ! a" by (simp add: nth_append)
    also from that same have "\<dots> = ?h1 ! a" by simp
    also from that have "\<dots> = h ! a" by (simp add: nth_append)
    finally show ?thesis .
  qed
  from sb len have len': "length h \<le> length h'" by (simp add: same_below_def)
  from assms have "p < length h" "q < length h" by (auto dest: loadD)
  with old len' assms have inputs: "load h' p = Some (Participants participants)"
    "load h' q = Some (Assignment pre_assigned)"
    by (simp_all add: load_def)
  have "length h \<le> a" if "out = Inr (Some a)" for a
    using heap_loop_result_ref[of rnd ?fr ?h5 h' a] l that len by simp
  with run inputs len' old res show ?thesis by blast
qed

text \<open>
  The call on a store that holds only the two inputs, A, B, C with A pre-assigned to B,
  every draw 1.
\<close>

theorem heap_call_leaves_inputs_unchanged_witness:
  "load [Participants [(''A'', None), (''B'', None), (''C'', None)],
         Assignment [(''A'', ''B'')]] 0
     = Some (Participants [(''A'', None), (''B'', None), (''C'', None)]) \<and>
   load [Participants [(''A'', None), (''B'', None), (''C'', None)],
         Assignment [(''A'', ''B'')]] 1
     = Some (Assignment [(''A'', ''B'')]) \<and>
   assign_secret_santa_heap
     [Participants [(''A'', None), (''B'', None), (''C'', None)], Assignment [(''A'', ''B'')]]
     0 1 (\<lambda>_. 1)
     = ([Participants [(''A'', None), (''B'', None), (''C'', None)],
         Assignment [(''A'', ''B'')], Names [''A'', ''B'', ''C''], Names [''B''],
         Names [], Names [''B''], Index [(''A'', 3), (''B'', 4), (''C'', 5)],
         Assignment [(''A'', ''B''), (''C'', ''A''), (''B'', ''C'')], Names []],
        Inr (Some 7)) \<and>
   assign_secret_santa [(''A'', None), (''B'', None), (''C'', None)] [(''A'', ''B'')] (\<lambda>_. 1)
     = Inr (Some [(''A'', ''B''), (''C'', ''A''), (''B'', ''C'')])"
proof -
  let ?h = "[Participants [(''A'', None), (''B'', None), (''C'', None)],
             Assignment [(''A'', ''B'')]]"
  have p: "load ?h 0 = Some (Participants [(''A'', None), (''B'', None), (''C'', None)])"
    and q: "load ?h 1 = Some (Assignment [(''A'', ''B'')])"
    by (simp_all add: load_def)
  have run: "assign_secret_santa_heap ?h 0 1 (\<lambda>_. 1)
     = ([Participants [(''A'', None), (''B'', None), (''C'', None)],
         Assignment [(''A'', ''B'')], Names [''A'', ''B'', ''C''], Names [''B''],
         Names [], Names [''B''], Index [(''A'', 3), (''B'', 4), (''C'', 5)],
         Assignment [(''A'', ''B''), (''C'', ''A''), (''B'', ''C'')], Names []],
        Inr (Some 7))"
    by (simp add: heap_run_simps)
  from heap_call_leaves_inputs_unchanged[OF p q, of "\<lambda>_. 1"] run
  have "heap_result ([Participants [(''A'', None), (''B'', None), (''C'', None)],
         Assignment [(''A'', ''B'')], Names [''A'', ''B'', ''C''], Names [''B''],
         Names [], Names [''B''], Index [(''A'', 3), (''B'', 4), (''C'', 5)],
         Assignment [(''A'', ''B''), (''C'', ''A''), (''B'', ''C'')], Names []],
        Inr (Some 7))
    = assign_secret_santa [(''A'', None), (''B'', None), (''C'', None)] [(''A'', ''B'')]
        (\<lambda>_. 1)"
    by simp
  then have "assign_secret_santa [(''A'', None), (''B'', None), (''C'', None)]
      [(''A'', ''B'')] (\<lambda>_. 1)
     = Inr (Some [(''A'', ''B''), (''C'', ''A''), (''B'', ''C'')])"
    by (simp add: heap_result_def load_def)
  with p q run show ?thesis by simp
qed

text \<open>
  C9.  A call of \<open>assign_secret_santa\<close> always returns, whatever its inputs and the
  random choices, and without raising.  The function is total by the termination proof of
  \<open>while_loop\<close>, whose measure is the number of unresolved givers; the theorem adds
  that the state reached after \<open>i\<close> iterations has exactly \<open>i\<close> unresolved givers
  fewer than the initial one (so there are at most as many iterations as unresolved
  givers), and that every iteration either returns null or removes the chosen giver from
  the unresolved list.
\<close>

theorem assign_secret_santa_terminates:
  "\<exists>st0 r.
     initial_state participants pre_assigned = Inr st0 \<and>
     all_names st0 =
       [name \<leftarrow> dict_keys participants. name \<notin> set (dict_keys pre_assigned)] \<and>
     assign_secret_santa participants pre_assigned rnd = Inr r \<and>
     (\<forall>i st. state_after i rnd st0 = Some st \<longrightarrow>
        i + length (all_names st) = length (all_names st0)) \<and>
     (\<forall>i st. state_after i rnd st0 = Some st \<longrightarrow> all_names st \<noteq> [] \<longrightarrow>
        (\<exists>santa. choice (rnd (2 * i)) (all_names st) = Inr santa \<and>
           (step (rnd (2 * i)) (rnd (2 * i + 1)) st = Inr None \<or>
            (\<exists>st'. step (rnd (2 * i)) (rnd (2 * i + 1)) st = Inr (Some st') \<and>
                   state_after (Suc i) rnd st0 = Some st' \<and>
                   all_names st' = remove1 santa (all_names st)))))"
proof -
  from wf_initial[of participants pre_assigned] obtain st0 where
    i: "initial_state participants pre_assigned = Inr st0" and w: "well_formed participants st0"
    and n: "all_names st0 =
      [name \<leftarrow> dict_keys participants. name \<notin> set (dict_keys pre_assigned)]"
    by blast
  from assign_returns[of participants pre_assigned rnd] obtain r where
    r: "assign_secret_santa participants pre_assigned rnd = Inr r" ..
  have len: "i + length (all_names st) = length (all_names st0)"
    if "state_after i rnd st0 = Some st" for i st
    using that by (rule state_after_length)
  have prog: "\<exists>santa. choice (rnd (2 * i)) (all_names st) = Inr santa \<and>
           (step (rnd (2 * i)) (rnd (2 * i + 1)) st = Inr None \<or>
            (\<exists>st'. step (rnd (2 * i)) (rnd (2 * i + 1)) st = Inr (Some st') \<and>
                   state_after (Suc i) rnd st0 = Some st' \<and>
                   all_names st' = remove1 santa (all_names st)))"
    if a: "state_after i rnd st0 = Some st" and ne: "all_names st \<noteq> []" for i st
  proof -
    have "well_formed participants st"
      using a w wf_step by (rule state_after_invariant)
    from step_progress[OF this ne, of "rnd (2 * i)" "rnd (2 * i + 1)"]
    obtain santa where c: "choice (rnd (2 * i)) (all_names st) = Inr santa"
      and d: "step (rnd (2 * i)) (rnd (2 * i + 1)) st = Inr None \<or>
            (\<exists>st'. step (rnd (2 * i)) (rnd (2 * i + 1)) st = Inr (Some st') \<and>
                   all_names st' = remove1 santa (all_names st))"
      by blast
    from d show ?thesis
    proof
      assume "step (rnd (2 * i)) (rnd (2 * i + 1)) st = Inr None"
      with c show ?thesis by blast
    next
      assume "\<exists>st'. step (rnd (2 * i)) (rnd (2 * i + 1)) st = Inr (Some st') \<and>
                   all_names st' = remove1 santa (all_names st)"
      then obtain st' where s: "step (rnd (2 * i)) (rnd (2 * i + 1)) st = Inr (Some st')"
        and l: "all_names st' = remove1 santa (all_names st)" by blast
      from state_after_Suc[OF a] ne s have "state_after (Suc i) rnd st0 = Some st'"
        by simp
      with c s l show ?thesis by blast
    qed
  qed
  from i n r len prog show ?thesis by blast
qed

text \<open>The first iteration of the run of Alice and Bob with every draw 0.\<close>

theorem assign_secret_santa_terminates_witness:
  "assign_secret_santa [(''Alice'', None), (''Bob'', None)] [] (\<lambda>_. 0)
     = Inr (Some [(''Alice'', ''Bob''), (''Bob'', ''Alice'')]) \<and>
   (\<exists>st0 st. initial_state [(''Alice'', None), (''Bob'', None)] [] = Inr st0 \<and>
      all_names st0 = [''Alice'', ''Bob''] \<and>
      state_after 1 (\<lambda>_. 0) st0 = Some st \<and> all_names st = [''Bob''] \<and>
      1 + length (all_names st) = length (all_names st0))"
proof -
  let ?ps = "[(''Alice'', None), (''Bob'', None)]"
  from assign_secret_santa_terminates[of ?ps "[]" "\<lambda>_. 0"] obtain st0 where
    i: "initial_state ?ps [] = Inr st0"
    and len: "\<forall>i st. state_after i (\<lambda>_. 0) st0 = Some st \<longrightarrow>
        i + length (all_names st) = length (all_names st0)"
    by blast
  from i have st0: "st0 = \<lparr> all_names = [''Alice'', ''Bob''], assignments = [],
      valid_assignments = [(''Alice'', [''Bob'']), (''Bob'', [''Alice''])] \<rparr>"
    by (simp add: initial_state_def dict_keys_def)
  have a: "state_after 1 (\<lambda>_. 0) st0 =
      Some \<lparr> all_names = [''Bob''], assignments = [(''Alice'', ''Bob'')],
             valid_assignments = [(''Alice'', []), (''Bob'', [''Alice''])] \<rparr>"
    unfolding st0
    by (simp add: step_def choice_def list_remove_def remove_giftee_def dict_values_def)
  have run: "assign_secret_santa ?ps [] (\<lambda>_. 0)
     = Inr (Some [(''Alice'', ''Bob''), (''Bob'', ''Alice'')])"
    by (simp add: run_simps)
  from len a have "1 + length (all_names \<lparr> all_names = [''Bob''],
      assignments = [(''Alice'', ''Bob'')],
      valid_assignments = [(''Alice'', []), (''Bob'', [''Alice''])] \<rparr>)
      = length (all_names st0)" by blast
  with run i a show ?thesis unfolding st0 by auto
qed

text \<open>
  C10.  On the empty participant set with no pre-assignments,
  \<open>is_assignment_possible\<close> returns true and \<open>assign_secret_santa\<close> returns the empty
  mapping, not null; the truth value of that result is false, as the truth value of null
  is, so a caller that tests \<^verbatim>\<open>not assignment\<close> treats both alike: the driving loop
  takes the empty mapping for a failed attempt and never ends.
\<close>

theorem empty_participants_give_falsy_success:
  "is_assignment_possible [] = Inr True \<and>
   assign_secret_santa [] [] rnd = Inr (Some []) \<and>
   \<not> truthy (Some []) \<and> \<not> truthy None \<and>
   retry_until_truthy [] [] rnds k = None"
proof -
  have "retry_until_truthy [] [] rnds k = None"
    using retry_returns_nonempty[of "[]" "[]" rnds k]
    by (cases "retry_until_truthy [] [] rnds k") auto
  then show ?thesis by (simp add: is_assignment_possible_def run_simps)
qed

end
